theory Spec2Isabelle
  imports Complex_Main "HOL-Library.AList" "HOL-Library.Stream"
begin

section \<open>Infection propagation on a grid and corner-to-corner path search\<close>

text \<open>
  A shallow embedding of \<^verbatim>\<open>infection_coloured.py\<close>. Python integers are \<^typ>\<open>int\<close>,
  Python floats are the reals they denote (the float product that gives the number of
  seeds is rounded as the machine rounds it), a dictionary
  is an association list in insertion order (\<^const>\<open>AList.update\<close> overwrites an existing
  key in place and appends a new key, as a Python dictionary does; \<^const>\<open>map_of\<close> reads),
  a deque is a list, and an uncaught exception or \<^verbatim>\<open>sys.exit\<close> is the left summand
  of a sum type. Printing (\<^verbatim>\<open>show_infection\<close>) has no effect on the state and is
  left out.
\<close>

subsection \<open>Exceptions and the random module\<close>

datatype error = IndexError | KeyError | RuntimeError | OverflowError | SystemExit int

text \<open>
  The global generator of the \<^verbatim>\<open>random\<close> module is made explicit. A source of
  randomness holds the samples that successive calls of \<^verbatim>\<open>random.random()\<close> will
  return (each in \<open>[0, 1)\<close> in Python) and the raw numbers from which
  \<^verbatim>\<open>random.choice\<close> takes its index (reduced modulo the length of the sequence).
  Every run of the program is the model's run on some source.
\<close>

record random_source =
  uniform :: "real stream"
  below :: "nat stream"

definition random_random :: "random_source \<Rightarrow> real \<times> random_source" where
  "random_random rnd = (shd (uniform rnd), rnd\<lparr>uniform := stl (uniform rnd)\<rparr>)"

text \<open>\<^verbatim>\<open>random.choice(seq)\<close> raises \<^verbatim>\<open>IndexError\<close> on an empty sequence.\<close>

definition random_choice :: "'a list \<Rightarrow> random_source \<Rightarrow> error + ('a \<times> random_source)" where
  "random_choice seq rnd =
     (if seq = [] then Inl IndexError
      else Inr (seq ! (shd (below rnd) mod length seq), rnd\<lparr>below := stl (below rnd)\<rparr>))"

subsection \<open>The class \<^verbatim>\<open>Infection\<close>\<close>

record infection =
  rows :: int
  cols :: int
  seed :: real
  risk :: real
  iterations :: int
  generation :: int
  size_n :: int
  route :: "int list option"
  infected :: "(int \<times> int option) list"

type_synonym world = "infection \<times> random_source"

text \<open>\<^verbatim>\<open>__init__\<close>: every cell \<open>0 .. size - 1\<close> is entered with the value \<^verbatim>\<open>None\<close>.\<close>

definition Infection :: "int \<Rightarrow> int \<Rightarrow> real \<Rightarrow> real \<Rightarrow> int \<Rightarrow> infection" where
  "Infection r c sd rk its =
     \<lparr>rows = r, cols = c, seed = sd, risk = rk, iterations = its, generation = 0,
      size_n = r * c, route = None,
      infected = fold (\<lambda>i d. AList.update i None d) [0 .. r * c - 1] []\<rparr>"

text \<open>
  \<^verbatim>\<open>infect\<close>: the sample is drawn first (Python's \<^verbatim>\<open>and\<close> evaluates its left
  operand first), the comparison is \<^verbatim>\<open><=\<close>, and the entry of the cell is assigned
  whatever it held before.
\<close>

definition infect :: "int \<Rightarrow> real option \<Rightarrow> world \<Rightarrow> world" where
  "infect pos risk_arg w =
     (let s = fst w;
          ir = (case risk_arg of None \<Rightarrow> risk s | Some r \<Rightarrow> r);
          (u, rnd') = random_random (snd w)
      in if u \<le> ir \<and> pos \<notin> {0, size_n s - 1}
         then (s\<lparr>infected := AList.update pos (Some (generation s)) (infected s)\<rparr>, rnd')
         else (s, rnd'))"

text \<open>
  Python floats are IEEE binary64 numbers. The product \<^verbatim>\<open>self.size * self.seed\<close> converts
  the integer to a float and multiplies; both steps round the exact result to the nearest
  binary64 number, ties to the even significand. \<open>to_double\<close> is that rounding on the
  reals, with an unbounded exponent above: a number in the binade \<open>[2^e, 2^(e+1))\<close> is
  rounded to a multiple of \<open>2^(e-52)\<close>, and below \<open>2^(-1022)\<close> to a multiple of
  \<open>2^(-1074)\<close>. A result of magnitude \<open>2^1024\<close> or more is an overflow: the conversion
  of the integer raises \<^verbatim>\<open>OverflowError\<close>, the product becomes infinite and
  \<^verbatim>\<open>math.floor\<close> raises \<^verbatim>\<open>OverflowError\<close> on it. \<open>seed_count\<close> is
  \<^verbatim>\<open>math.floor(self.size * self.seed)\<close> as the bound of \<^verbatim>\<open>range\<close>, which is empty
  for a negative bound. The seed fraction held by a state is a binary64 number in every
  run; the model admits every real. A seed that is not a number is outside the model.
\<close>

definition round_half_even :: "real \<Rightarrow> int" where
  "round_half_even y =
     (let f = \<lfloor>y\<rfloor>; d = y - of_int f
      in if d < 1 / 2 then f else if 1 / 2 < d then f + 1 else if even f then f else f + 1)"

definition to_double :: "real \<Rightarrow> real" where
  "to_double x =
     (if x = 0 then 0
      else let e = max \<lfloor>log 2 \<bar>x\<bar>\<rfloor> (- 1022); q = 2 powr (of_int e - 52)
           in of_int (round_half_even (x / q)) * q)"

definition seed_count :: "int \<Rightarrow> real \<Rightarrow> error + nat" where
  "seed_count n sd =
     (let a = to_double (of_int n)
      in if 2 ^ 1024 \<le> \<bar>a\<bar> then Inl OverflowError
         else let p = to_double (a * sd)
              in if 2 ^ 1024 \<le> \<bar>p\<bar> then Inl OverflowError else Inr (nat \<lfloor>p\<rfloor>))"

text \<open>
  \<^verbatim>\<open>spawn\<close>: \<^verbatim>\<open>positions\<close> is a Python set; \<^verbatim>\<open>tuple(positions)\<close> lists it in an
  order the language does not fix, and the model lists it in key order. As the index
  drawn is arbitrary, every element can be chosen either way.
\<close>

fun spawn_loop :: "nat \<Rightarrow> int list \<Rightarrow> world \<Rightarrow> error + world" where
  "spawn_loop 0 positions w = Inr w"
| "spawn_loop (Suc k) positions w =
     (case random_choice positions (snd w) of
        Inl e \<Rightarrow> Inl e
      | Inr (random_pos, rnd') \<Rightarrow>
          spawn_loop k (remove1 random_pos positions) (infect random_pos (Some 1) (fst w, rnd')))"

definition spawn :: "world \<Rightarrow> error + world" where
  "spawn w =
     (let s = fst w;
          positions = filter (\<lambda>k. k \<notin> {0, size_n s - 1}) (map fst (infected s))
      in case seed_count (size_n s) (seed s) of
           Inl e \<Rightarrow> Inl e
         | Inr k \<Rightarrow> spawn_loop k positions w)"

definition get_neighbours :: "infection \<Rightarrow> int \<Rightarrow> (string \<times> int option) list" where
  "get_neighbours s pos =
     (let up = (if pos - cols s < 0 then None else Some (pos - cols s));
          down = (if pos + cols s \<ge> size_n s then None else Some (pos + cols s));
          left = (if pos mod cols s = 0 then None else Some (pos - 1));
          right = (if (pos + 1) mod cols s = 0 then None else Some (pos + 1))
      in [(''u'', up), (''d'', down), (''l'', left), (''r'', right)])"

text \<open>The inner loop of \<^verbatim>\<open>propagate\<close>: one call of \<^verbatim>\<open>infect\<close> for each neighbour present.\<close>

fun infect_neighbours :: "(string \<times> int option) list \<Rightarrow> world \<Rightarrow> world" where
  "infect_neighbours [] w = w"
| "infect_neighbours ((_, None) # rest) w = infect_neighbours rest w"
| "infect_neighbours ((_, Some n) # rest) w = infect_neighbours rest (infect n None w)"

text \<open>The body of the loop over \<^verbatim>\<open>self.infected.items()\<close> for one item.\<close>

definition transmit :: "int \<Rightarrow> int option \<Rightarrow> world \<Rightarrow> world" where
  "transmit pos gen w =
     (case gen of
        None \<Rightarrow> w
      | Some g \<Rightarrow>
          if g < generation (fst w) then infect_neighbours (get_neighbours (fst w) pos) w
          else w)"

text \<open>
  The loop over \<^verbatim>\<open>self.infected.items()\<close> reads the dictionary while
  \<^verbatim>\<open>infect\<close> writes to it: the item at each position is read when the iteration
  reaches it, and the iterator raises \<^verbatim>\<open>RuntimeError\<close> when the number of entries
  has changed since the loop began.
\<close>

fun propagate_items :: "nat list \<Rightarrow> nat \<Rightarrow> world \<Rightarrow> error + world" where
  "propagate_items [] used w =
     (if length (infected (fst w)) \<noteq> used then Inl RuntimeError else Inr w)"
| "propagate_items (i # rest) used w =
     (if length (infected (fst w)) \<noteq> used then Inl RuntimeError
      else (case infected (fst w) ! i of
              (pos, gen) \<Rightarrow> propagate_items rest used (transmit pos gen w)))"

text \<open>One pass of the \<^verbatim>\<open>while\<close> loop of \<^verbatim>\<open>propagate\<close>.\<close>

definition propagate_round :: "world \<Rightarrow> error + world" where
  "propagate_round w =
     (let s = (fst w)\<lparr>generation := generation (fst w) + 1\<rparr>
      in propagate_items [0 ..< length (infected s)] (length (infected s)) (s, snd w))"

text \<open>
  \<^verbatim>\<open>propagate\<close>: the \<^verbatim>\<open>while\<close> loop runs until the generation counter reaches
  \<^verbatim>\<open>iterations\<close>; an exception raised in a round ends it.
\<close>

function propagate :: "world \<Rightarrow> error + world" where
  "propagate w =
     (if generation (fst w) < iterations (fst w)
      then (case propagate_round w of Inl e \<Rightarrow> Inl e | Inr w' \<Rightarrow> propagate w')
      else Inr w)"
  by pat_completeness auto
termination
proof (relation "measure (\<lambda>w. nat (iterations (fst w) - generation (fst w)))")
  show "wf (measure (\<lambda>w. nat (iterations (fst w) - generation (fst w))))"
    by simp
next
  fix w w' :: world
  assume lt: "generation (fst w) < iterations (fst w)"
    and rd: "propagate_round w = Inr w'"
  have inf: "generation (fst (infect n a v)) = generation (fst v)
      \<and> iterations (fst (infect n a v)) = iterations (fst v)" for n a v
    by (simp add: infect_def Let_def split: prod.splits)
  have nbs: "generation (fst (infect_neighbours ns v)) = generation (fst v)
      \<and> iterations (fst (infect_neighbours ns v)) = iterations (fst v)" for ns v
    by (induction ns v rule: infect_neighbours.induct) (simp_all add: inf)
  have tr: "generation (fst (transmit p g v)) = generation (fst v)
      \<and> iterations (fst (transmit p g v)) = iterations (fst v)" for p g v
    by (simp add: transmit_def nbs split: option.splits)
  have it: "propagate_items js used v = Inr v' \<Longrightarrow>
      generation (fst v') = generation (fst v) \<and> iterations (fst v') = iterations (fst v)"
    for js used v v'
  proof (induction js arbitrary: v)
    case Nil
    then show ?case by (simp split: if_splits)
  next
    case (Cons j js)
    then show ?case
      by (auto simp: tr split: if_splits prod.splits)
  qed
  from rd have "generation (fst w') = generation (fst w) + 1
      \<and> iterations (fst w') = iterations (fst w)"
    by (auto simp: propagate_round_def Let_def dest!: it)
  with lt show "(w', w) \<in> measure (\<lambda>w. nat (iterations (fst w) - generation (fst w)))"
    by simp
qed

declare propagate.simps [simp del]

subsection \<open>Path search\<close>

text \<open>
  \<^verbatim>\<open>adjacency_list\<close>: for every cell whose entry is \<^verbatim>\<open>None\<close>, the neighbours whose
  entry is \<^verbatim>\<open>None\<close>, in the order up, down, left, right. Reading
  \<^verbatim>\<open>self.infected[n]\<close> raises \<^verbatim>\<open>KeyError\<close> when \<open>n\<close> is not a key.
\<close>

fun vacant_neighbours ::
  "(int \<times> int option) list \<Rightarrow> (string \<times> int option) list \<Rightarrow> error + int list" where
  "vacant_neighbours d [] = Inr []"
| "vacant_neighbours d ((_, None) # rest) = vacant_neighbours d rest"
| "vacant_neighbours d ((_, Some n) # rest) =
     (case map_of d n of
        None \<Rightarrow> Inl KeyError
      | Some g \<Rightarrow>
          (case vacant_neighbours d rest of
             Inl e \<Rightarrow> Inl e
           | Inr ns \<Rightarrow> Inr (if g = None then n # ns else ns)))"

fun adjacency_items ::
  "infection \<Rightarrow> (int \<times> int option) list \<Rightarrow> (int \<times> int list) list
     \<Rightarrow> error + (int \<times> int list) list" where
  "adjacency_items s [] al = Inr al"
| "adjacency_items s ((pos, Some g) # rest) al = adjacency_items s rest al"
| "adjacency_items s ((pos, None) # rest) al =
     (case vacant_neighbours (infected s) (get_neighbours s pos) of
        Inl e \<Rightarrow> Inl e
      | Inr ns \<Rightarrow> adjacency_items s rest (AList.update pos ns al))"

definition adjacency_list :: "infection \<Rightarrow> error + (int \<times> int list) list" where
  "adjacency_list s = adjacency_items s (infected s) []"

text \<open>
  The \<^verbatim>\<open>for\<close> loop of \<^verbatim>\<open>bfs\<close> over the neighbours of the dequeued cell: every
  extended path is appended to the queue, and the loop returns the extended path
  (\<open>Inl\<close>) as soon as the neighbour is the goal; otherwise it yields the new queue.
\<close>

fun bfs_extend :: "int list \<Rightarrow> int \<Rightarrow> int list \<Rightarrow> int list list \<Rightarrow> int list + int list list" where
  "bfs_extend path goal [] queue = Inr queue"
| "bfs_extend path goal (n # ns) queue =
     (let new_path = path @ [n]; queue' = queue @ [new_path]
      in if n = goal then Inl new_path else bfs_extend path goal ns queue')"

text \<open>
  The \<^verbatim>\<open>while queue\<close> loop of \<^verbatim>\<open>bfs\<close>. \<^verbatim>\<open>path[-1]\<close> raises \<^verbatim>\<open>IndexError\<close> on
  an empty path and \<^verbatim>\<open>alist[cell]\<close> raises \<^verbatim>\<open>KeyError\<close> when the cell has no
  entry. The result \<open>Inr None\<close> is the \<^verbatim>\<open>return None\<close> after the loop.
\<close>

function bfs_loop ::
  "(int \<times> int list) list \<Rightarrow> int \<Rightarrow> int list list \<Rightarrow> int list \<Rightarrow> error + int list option" where
  "bfs_loop alist goal [] visited = Inr None"
| "bfs_loop alist goal (path # queue) visited =
     (if path = [] then Inl IndexError
      else let cell = last path
           in if cell \<in> set visited then bfs_loop alist goal queue visited
              else (case map_of alist cell of
                      None \<Rightarrow> Inl KeyError
                    | Some neighbours \<Rightarrow>
                        (case bfs_extend path goal neighbours queue of
                           Inl new_path \<Rightarrow> Inr (Some new_path)
                         | Inr queue' \<Rightarrow> bfs_loop alist goal queue' (visited @ [cell]))))"
  by pat_completeness auto
termination
proof (relation "inv_image (less_than <*lex*> less_than)
    (\<lambda>(alist, goal, queue, visited). (card (fst ` set alist - set visited), length queue))")
  show "wf (inv_image (less_than <*lex*> less_than)
    (\<lambda>(alist, goal, queue, visited). (card (fst ` set alist - set visited), length queue)))"
    by (intro wf_inv_image wf_lex_prod wf_less_than)
next
  fix alist :: "(int \<times> int list) list" and goal :: int and path :: "int list"
    and queue :: "int list list" and visited :: "int list" and x :: int
  assume "path \<noteq> []" "x = last path" "x \<in> set visited"
  then show "((alist, goal, queue, visited), alist, goal, path # queue, visited)
    \<in> inv_image (less_than <*lex*> less_than)
      (\<lambda>(alist, goal, queue, visited). (card (fst ` set alist - set visited), length queue))"
    by simp
next
  fix alist :: "(int \<times> int list) list" and goal :: int and path :: "int list"
    and queue :: "int list list" and visited :: "int list" and x :: int
    and x2 :: "int list" and x2a :: "int list list"
  assume nv: "x \<notin> set visited" and key: "map_of alist x = Some x2"
  from key have "x \<in> fst ` set alist"
    by (metis domI dom_map_of_conv_image_fst)
  with nv have "fst ` set alist - set (visited @ [x]) \<subset> fst ` set alist - set visited"
    by auto
  then have "card (fst ` set alist - set (visited @ [x])) < card (fst ` set alist - set visited)"
    by (intro psubset_card_mono) auto
  then show "((alist, goal, x2a, visited @ [x]), alist, goal, path # queue, visited)
    \<in> inv_image (less_than <*lex*> less_than)
      (\<lambda>(alist, goal, queue, visited). (card (fst ` set alist - set visited), length queue))"
    by simp
qed

declare bfs_loop.simps [simp del]

definition bfs :: "infection \<Rightarrow> error + int list option" where
  "bfs s =
     (case adjacency_list s of
        Inl e \<Rightarrow> Inl e
      | Inr alist \<Rightarrow> bfs_loop alist (size_n s - 1) ([0] # []) [])"

text \<open>
  \<^verbatim>\<open>compute_path\<close>: the route is stored, and each of its cells is entered into an
  ordered dictionary with the pair \<^verbatim>\<open>(math.floor(pos / self.rows), pos % self.cols)\<close>;
  the values are printed in order. The result is the state and the printed pairs, or
  \<open>None\<close> when "No path could be found." is printed. The floor of the float quotient
  is the integer quotient (exactly so below \<open>2 ^ 53\<close>). The main block constructs the
  object only when \<^verbatim>\<open>rows\<close> and \<^verbatim>\<open>cols\<close> are positive, so neither this division nor
  the remainders in \<^verbatim>\<open>get_neighbours\<close> divide by zero.
\<close>

definition compute_path :: "infection \<Rightarrow> error + (infection \<times> (int \<times> int) list option)" where
  "compute_path s =
     (case bfs s of
        Inl e \<Rightarrow> Inl e
      | Inr r \<Rightarrow>
          (let s' = s\<lparr>route := r\<rparr>
           in case r of
                None \<Rightarrow> Inr (s', None)
              | Some rt \<Rightarrow>
                  Inr (s', Some (map snd
                    (fold (\<lambda>pos path. AList.update pos (pos div rows s, pos mod cols s) path)
                       rt [])))))"

subsection \<open>The main program\<close>

text \<open>The first three statements of the main block: construct, seed, propagate.\<close>

definition simulation :: "int \<Rightarrow> int \<Rightarrow> real \<Rightarrow> real \<Rightarrow> int \<Rightarrow> random_source \<Rightarrow> error + world" where
  "simulation r c sd rk its rnd =
     (case spawn (Infection r c sd rk its, rnd) of
        Inl e \<Rightarrow> Inl e
      | Inr w \<Rightarrow> propagate w)"

text \<open>The range checks on the command line arguments exit with status 1.\<close>

definition main ::
  "int \<Rightarrow> int \<Rightarrow> real \<Rightarrow> real \<Rightarrow> int \<Rightarrow> random_source
     \<Rightarrow> error + (infection \<times> (int \<times> int) list option)" where
  "main r c sd rk its rnd =
     (if r \<le> 0 then Inl (SystemExit 1)
      else if c \<le> 0 then Inl (SystemExit 1)
      else if sd < 0 \<or> sd > 1 then Inl (SystemExit 1)
      else if rk < 0 \<or> rk > 1 then Inl (SystemExit 1)
      else if its < 0 then Inl (SystemExit 1)
      else (case simulation r c sd rk its rnd of
              Inl e \<Rightarrow> Inl e
            | Inr w \<Rightarrow> compute_path (fst w)))"

subsection \<open>Well-formed and reachable states\<close>

text \<open>
  The states the constructor builds from positive dimensions, and every state that
  follows: the keys of the dictionary are the cells \<open>0 .. size - 1\<close> in order.
\<close>

definition wf_state :: "infection \<Rightarrow> bool" where
  "wf_state s \<longleftrightarrow>
     0 < rows s \<and> 0 < cols s \<and> size_n s = rows s * cols s
     \<and> map fst (infected s) = [0 .. size_n s - 1]"

text \<open>A cell is vacant when its entry is \<^verbatim>\<open>None\<close>.\<close>

definition vacant :: "infection \<Rightarrow> int \<Rightarrow> bool" where
  "vacant s pos \<longleftrightarrow> map_of (infected s) pos = Some None"

text \<open>
  The states of a run with positive dimensions: the state after seeding, and the state
  after each pass of the loop of \<^verbatim>\<open>propagate\<close>, for any source of randomness.
\<close>

inductive reachable :: "world \<Rightarrow> bool" where
  seeded: "0 < r \<Longrightarrow> 0 < c \<Longrightarrow> spawn (Infection r c sd rk its, rnd) = Inr w \<Longrightarrow> reachable w"
| round: "reachable w \<Longrightarrow> generation (fst w) < iterations (fst w)
    \<Longrightarrow> propagate_round w = Inr w' \<Longrightarrow> reachable w'"

text \<open>What stays fixed while a round runs.\<close>

definition same_grid :: "infection \<Rightarrow> infection \<Rightarrow> bool" where
  "same_grid s t \<longleftrightarrow>
     rows t = rows s \<and> cols t = cols s \<and> size_n t = size_n s \<and> risk t = risk s
     \<and> seed t = seed s \<and> iterations t = iterations s
     \<and> length (infected t) = length (infected s)"

text \<open>
  The invariant of a round that starts in \<open>s0\<close>: an entry that differs from the one in
  \<open>s0\<close> holds the number of the round and belongs to a neighbour of a cell that was
  infected in \<open>s0\<close>.
\<close>

definition round_inv :: "infection \<Rightarrow> world \<Rightarrow> bool" where
  "round_inv s0 v \<longleftrightarrow>
     wf_state (fst v) \<and> same_grid s0 (fst v) \<and> generation (fst v) = generation s0 + 1
     \<and> (vacant s0 0 \<longrightarrow> vacant (fst v) 0)
     \<and> (vacant s0 (size_n s0 - 1) \<longrightarrow> vacant (fst v) (size_n s0 - 1))
     \<and> (\<forall>n. map_of (infected (fst v)) n \<noteq> map_of (infected s0) n \<longrightarrow>
            map_of (infected (fst v)) n = Some (Some (generation s0 + 1))
            \<and> (\<exists>pos g k. map_of (infected s0) pos = Some (Some g) \<and> g \<le> generation s0
                  \<and> (k, Some n) \<in> set (get_neighbours s0 pos)))"

text \<open>
  The state in which the loop of a round begun in \<open>w\<close> reaches its item number \<open>j\<close>: the
  generation counter has been incremented and the items before \<open>j\<close> have been handled.
  With \<open>j\<close> the number of items it is the result of the round.
\<close>

definition round_state :: "world \<Rightarrow> nat \<Rightarrow> error + world" where
  "round_state w j =
     (let s = (fst w)\<lparr>generation := generation (fst w) + 1\<rparr>
      in propagate_items [0 ..< j] (length (infected s)) (s, snd w))"

subsection \<open>Routes on the grid and the invariant of the search\<close>

text \<open>
  Two cells are neighbours on a grid of \<open>c\<close> columns when their coordinates
  \<open>(id div c, id mod c)\<close> differ by one in exactly one component.
\<close>

definition grid_adjacent :: "int \<Rightarrow> int \<Rightarrow> int \<Rightarrow> bool" where
  "grid_adjacent c a b \<longleftrightarrow>
     (a div c = b div c \<and> \<bar>a mod c - b mod c\<bar> = 1)
     \<or> (a mod c = b mod c \<and> \<bar>a div c - b div c\<bar> = 1)"

text \<open>
  A clear route: a sequence of cells from the start corner to the goal corner in which
  consecutive cells are neighbours on the grid and every cell is vacant.
\<close>

definition clear_route :: "infection \<Rightarrow> int list \<Rightarrow> bool" where
  "clear_route s p \<longleftrightarrow>
     p \<noteq> [] \<and> hd p = 0 \<and> last p = size_n s - 1
     \<and> successively (grid_adjacent (cols s)) p \<and> list_all (vacant s) p"

text \<open>
  The graph an adjacency list stands for, the walks in it that begin at cell \<open>0\<close>, and
  what an entry of the adjacency list of a state has to hold.
\<close>

definition edge :: "(int \<times> int list) list \<Rightarrow> int \<Rightarrow> int \<Rightarrow> bool" where
  "edge al a b \<longleftrightarrow> (case map_of al a of None \<Rightarrow> False | Some ns \<Rightarrow> b \<in> set ns)"

definition walk :: "(int \<times> int list) list \<Rightarrow> int list \<Rightarrow> bool" where
  "walk al p \<longleftrightarrow> p \<noteq> [] \<and> hd p = 0 \<and> successively (edge al) p"

definition adj_entry :: "infection \<Rightarrow> int \<Rightarrow> int list \<Rightarrow> bool" where
  "adj_entry s a ns \<longleftrightarrow>
     vacant s a \<and> set ns = {b. (\<exists>k. (k, Some b) \<in> set (get_neighbours s a)) \<and> vacant s b}"

text \<open>
  The invariant of the \<^verbatim>\<open>while\<close> loop of \<^verbatim>\<open>bfs\<close>: the queue holds walks that do
  not end at the goal, ordered by length and at most one longer than the first; every
  walk shorter than the first path of the queue ends at a visited cell; and every
  neighbour of the end of a walk that ends at a visited cell is visited or is the end
  of a queued path at most one longer than that walk.
\<close>

definition bfs_inv ::
  "(int \<times> int list) list \<Rightarrow> int \<Rightarrow> int list list \<Rightarrow> int list \<Rightarrow> bool" where
  "bfs_inv al goal queue visited \<longleftrightarrow>
     (\<forall>p \<in> set queue. walk al p \<and> last p \<noteq> goal)
     \<and> sorted (map length queue)
     \<and> (\<forall>p \<in> set queue. length p \<le> Suc (length (hd queue)))
     \<and> goal \<notin> set visited
     \<and> (\<forall>q. walk al q \<longrightarrow> queue \<noteq> [] \<longrightarrow> length q < length (hd queue)
            \<longrightarrow> last q \<in> set visited)
     \<and> (\<forall>q n. walk al q \<longrightarrow> last q \<in> set visited \<longrightarrow> edge al (last q) n
            \<longrightarrow> n \<in> set visited \<or> (\<exists>p \<in> set queue. last p = n \<and> length p \<le> Suc (length q)))"

subsection \<open>Two sources of randomness for concrete runs\<close>

text \<open>
  Every sample is \<open>0\<close> and every index is \<open>0\<close>; and a source whose samples are
  \<open>1/2, 1/4, 1/8, \<dots>\<close>, so that the next sample tells how many have been drawn.
\<close>

definition zero_source :: random_source where
  "zero_source = \<lparr>uniform = sconst 0, below = sconst 0\<rparr>"

definition halving_source :: random_source where
  "halving_source = \<lparr>uniform = siterate (\<lambda>x. x / 2) (1 / 2), below = sconst 0\<rparr>"

section \<open>Properties\<close>

subsection \<open>Evaluation and frame lemmas\<close>

text \<open>Rounding leaves the integers below \<open>2^53\<close> as they are.\<close>

lemma round_half_even_of_int [simp]: "round_half_even (of_int k) = k"
  by (simp add: round_half_even_def)

lemma to_double_grid:
  assumes "x \<noteq> 0" and "2 powr of_int e \<le> \<bar>x\<bar>" and "\<bar>x\<bar> < 2 powr (of_int e + 1)"
    and "- 1022 \<le> e"
  shows "to_double x
    = of_int (round_half_even (x / 2 powr (of_int e - 52))) * 2 powr (of_int e - 52)"
proof -
  from assms(1) have "0 < \<bar>x\<bar>" by simp
  then have "\<lfloor>log 2 \<bar>x\<bar>\<rfloor> = e"
    using assms(2,3) by (simp add: floor_log_eq_powr_iff)
  with assms(1,4) show ?thesis by (simp add: to_double_def Let_def max_def)
qed

lemma to_double_of_int:
  assumes "\<bar>n\<bar> < 2 ^ 53"
  shows "to_double (of_int n) = of_int n"
proof (cases "n = 0")
  case True
  then show ?thesis by (simp add: to_double_def)
next
  case False
  let ?x = "real_of_int n"
  have pos: "0 < \<bar>?x\<bar>" and one: "1 \<le> \<bar>?x\<bar>" using False by simp_all
  define e where "e = \<lfloor>log 2 \<bar>?x\<bar>\<rfloor>"
  have e0: "0 \<le> e"
    using one by (simp add: e_def zero_le_log_cancel_iff)
  have "\<bar>?x\<bar> < 2 ^ 53"
    using assms by (metis of_int_abs of_int_less_numeral_power_cancel_iff)
  then have "log 2 \<bar>?x\<bar> < 53"
    using pos by (simp add: log_less_iff)
  then have e53: "e \<le> 52" by (simp add: e_def floor_le_iff)
  define m where "m = nat (52 - e)"
  have q: "2 powr (real_of_int e - 52) = 1 / 2 ^ m"
  proof -
    have "of_int e - 52 = - real m" using e53 by (simp add: m_def)
    then show ?thesis by (simp add: powr_minus_divide powr_realpow)
  qed
  have quot: "?x / (1 / 2 ^ m) = real_of_int (n * 2 ^ m)" by simp
  have "to_double ?x = of_int (round_half_even (?x / (1 / 2 ^ m))) * (1 / 2 ^ m)"
    using False e0 q by (simp add: to_double_def Let_def max_def e_def[symmetric])
  also have "\<dots> = real_of_int (n * 2 ^ m) * (1 / 2 ^ m)"
    by (simp only: quot round_half_even_of_int)
  also have "\<dots> = ?x" by simp
  finally show ?thesis .
qed

lemma to_double_numeral [simp]:
  "numeral k < (2::int) ^ 53 \<Longrightarrow> to_double (numeral k) = numeral k"
  using to_double_of_int[of "numeral k"] by simp

lemma to_double_0 [simp]: "to_double 0 = 0"
  by (simp add: to_double_def)

lemma to_double_1 [simp]: "to_double 1 = 1"
  using to_double_of_int[of 1] by simp

text \<open>
  The product is rounded before the floor is taken: three cells and the seed fraction
  \<^verbatim>\<open>0.3333333333333333\<close> (the binary64 number \<open>6004799503160661 / 2^54\<close>) give the count
  \<open>1\<close>, as the exact product \<open>1 - 2^(-54)\<close> lies halfway between two binary64 numbers and
  is rounded to \<open>1\<close>.
\<close>

lemma seed_count_rounds_product:
  "seed_count 3 (6004799503160661 / 2 ^ 54) = Inr 1"
proof -
  let ?x = "3 * (6004799503160661 / 2 ^ 54) :: real"
  have "to_double ?x
      = of_int (round_half_even (?x / 2 powr (of_int (- 1) - 52))) * 2 powr (of_int (- 1) - 52)"
    by (rule to_double_grid) (simp_all add: powr_minus_divide)
  also have "2 powr (of_int (- 1) - 52) = (1 / 2 ^ 53 :: real)"
    by (simp add: powr_minus_divide)
  also have "round_half_even (?x / (1 / 2 ^ 53)) = 2 ^ 53"
    by (simp add: round_half_even_def)
  finally have "to_double ?x = 1" by simp
  then show ?thesis by (simp add: seed_count_def)
qed

lemma spawn_Inr:
  assumes "spawn w = Inr w'"
  shows "\<exists>k. seed_count (size_n (fst w)) (seed (fst w)) = Inr k
    \<and> spawn_loop k (filter (\<lambda>k. k \<notin> {0, size_n (fst w) - 1}) (map fst (infected (fst w)))) w
        = Inr w'"
  using assms by (auto simp: spawn_def Let_def split: sum.splits)

lemma spawn_loop_numeral:
  "spawn_loop (numeral n) ps w = spawn_loop (Suc (pred_numeral n)) ps w"
  by (simp add: numeral_eq_Suc)

lemmas run_simps = Infection_def spawn_def infect_def random_random_def random_choice_def
  simulation_def propagate_round_def transmit_def get_neighbours_def Let_def
  bfs_def adjacency_list_def compute_path_def main_def upto.simps spawn_loop_numeral
  seed_count_def
  propagate.simps bfs_loop.simps

lemma infect_fields:
  "generation (fst (infect n a v)) = generation (fst v)"
  "iterations (fst (infect n a v)) = iterations (fst v)"
  "size_n (fst (infect n a v)) = size_n (fst v)"
  "rows (fst (infect n a v)) = rows (fst v)"
  "cols (fst (infect n a v)) = cols (fst v)"
  "risk (fst (infect n a v)) = risk (fst v)"
  by (simp_all add: infect_def Let_def split: prod.splits)

lemma spawn_loop_fields:
  "spawn_loop k ps w = Inr w' \<Longrightarrow>
     generation (fst w') = generation (fst w) \<and> iterations (fst w') = iterations (fst w)
     \<and> size_n (fst w') = size_n (fst w) \<and> rows (fst w') = rows (fst w)
     \<and> cols (fst w') = cols (fst w) \<and> risk (fst w') = risk (fst w)"
proof (induction k arbitrary: ps w)
  case 0
  then show ?case by simp
next
  case (Suc k)
  then show ?case
    by (auto simp: infect_fields split: sum.splits prod.splits dest!: Suc.IH)
qed

subsection \<open>Zero rounds\<close>

text \<open>
  Claim C9. With \<open>iterations = 0\<close> the simulation performs no propagation: its result,
  the mapping of every cell to its generation included, is the result of seeding alone
  (and it fails exactly when seeding fails).
\<close>

theorem zero_iterations_is_seeding:
  "simulation r c sd rk 0 rnd = spawn (Infection r c sd rk 0, rnd)"
proof (cases "spawn (Infection r c sd rk 0, rnd)")
  case (Inl e)
  then show ?thesis by (simp add: simulation_def)
next
  case (Inr w)
  then have "generation (fst w) = 0 \<and> iterations (fst w) = 0"
    using spawn_loop_fields[of _ _ "(Infection r c sd rk 0, rnd)" w]
    by (auto simp: Infection_def dest!: spawn_Inr)
  then have "propagate w = Inr w"
    by (simp add: propagate.simps)
  with Inr show ?thesis by (simp add: simulation_def)
qed

theorem zero_iterations_is_seeding_witness:
  "map_sum id (infected \<circ> fst) (simulation 1 4 (1 / 2) 1 0 zero_source)
     = Inr [(0, None), (1, Some 0), (2, Some 0), (3, None)]"
  unfolding zero_iterations_is_seeding[of 1 4 "1 / 2" 1 zero_source]
  by (simp add: zero_source_def Infection_def spawn_def infect_def random_random_def
      random_choice_def Let_def upto.simps spawn_loop_numeral seed_count_def)

subsection \<open>The grid of one cell\<close>

text \<open>
  Claim C10. On the grid of one cell, where the start is the goal and is not infected,
  the search returns the no-route outcome, and \<^verbatim>\<open>compute_path\<close> reports that no path
  was found: the goal is only looked for among the neighbours of a dequeued cell, and
  the single cell has none.
\<close>

theorem single_cell_no_route:
  assumes "size_n s = 1" and "cols s = 1" and "infected s = [(0, None)]"
  shows "bfs s = Inr None \<and> compute_path s = Inr (s\<lparr>route := None\<rparr>, None)"
  using assms by (simp add: run_simps)

theorem single_cell_no_route_witness:
  "bfs (Infection 1 1 0 0 0) = Inr None
   \<and> compute_path (Infection 1 1 0 0 0) = Inr ((Infection 1 1 0 0 0)\<lparr>route := None\<rparr>, None)"
  using single_cell_no_route[of "Infection 1 1 0 0 0"]
  by (simp add: Infection_def upto.simps)

subsection \<open>Reported coordinates\<close>

text \<open>
  Claim C4. The claim asks for the pair \<open>(id div cols, id mod cols)\<close>, so that a grid of
  one row and five columns without infection reports the five cells of row \<open>0\<close>. The
  code divides by \<^verbatim>\<open>self.rows\<close>: on that grid it prints the diagonal
  \<open>(0,0), (1,1), (2,2), (3,3), (4,4)\<close>, whatever the random draws are.
\<close>

theorem coordinates_use_rows_as_divisor:
  "map_sum id snd (main 1 5 0 0 0 rnd) = Inr (Some [(0, 0), (1, 1), (2, 2), (3, 3), (4, 4)])"
  by (simp add: run_simps propagate.simps)

subsection \<open>Seeding\<close>

lemma spawn_loop_overcommit:
  "length ps < k \<Longrightarrow> spawn_loop k ps w = Inl IndexError"
proof (induction k arbitrary: ps w)
  case 0
  then show ?case by simp
next
  case (Suc k)
  show ?case
  proof (cases "ps = []")
    case True
    then show ?thesis by (simp add: random_choice_def)
  next
    case False
    let ?p = "ps ! (shd (below (snd w)) mod length ps)"
    from False have "?p \<in> set ps" by simp
    then have "length (remove1 ?p ps) = length ps - 1"
      by (simp add: length_remove1)
    with Suc.prems False have "length (remove1 ?p ps) < k"
      by (cases ps) auto
    then have "spawn_loop k (remove1 ?p ps) v = Inl IndexError" for v
      by (rule Suc.IH)
    with False show ?thesis
      by (simp add: random_choice_def)
  qed
qed

text \<open>
  Claim C7. The claim asks that seeding caps the number of seeds at the size of the
  pool. On a \<open>2 \<times> 2\<close> grid with seed fraction \<open>1\<close> the count is \<open>4\<close> and the pool
  holds the two cells that are not corners: the third \<^verbatim>\<open>random.choice\<close> is given an
  empty tuple and raises \<^verbatim>\<open>IndexError\<close>, for every source of randomness.
\<close>

theorem seeding_overcommit_raises:
  "spawn (Infection 2 2 1 rk its, rnd) = Inl IndexError"
  by (simp add: spawn_def Let_def Infection_def upto.simps spawn_loop_overcommit
      seed_count_def)

subsection \<open>Generations are overwritten\<close>

text \<open>
  Claim C1. The claim asks that a generation, once set, never changes. On a grid of one
  row and four columns with seed fraction \<open>1/2\<close>, risk \<open>1\<close> and one round, cells \<open>1\<close> and
  \<open>2\<close> are seeded with generation \<open>0\<close>, and in round \<open>1\<close> cell \<open>1\<close> infects cell \<open>2\<close>
  again: the final mapping gives cell \<open>2\<close> the generation \<open>1\<close>.
\<close>

theorem generation_overwritten:
  "map_sum id (infected \<circ> fst) (spawn (Infection 1 4 (1 / 2) 1 1, zero_source))
     = Inr [(0, None), (1, Some 0), (2, Some 0), (3, None)]
   \<and> map_sum id (infected \<circ> fst) (simulation 1 4 (1 / 2) 1 1 zero_source)
     = Inr [(0, None), (1, Some 0), (2, Some 1), (3, None)]"
  by (simp add: zero_source_def run_simps)

text \<open>
  Claim C2. The claim asks that every cell infected before round \<open>r\<close> attempts to infect
  each of its neighbours in round \<open>r\<close>. On a grid of one row and eight columns with seed
  fraction \<open>1/4\<close>, risk \<open>1\<close> and one round, cells \<open>1\<close> and \<open>2\<close> are seeded. In round \<open>1\<close>
  cell \<open>1\<close> overwrites the generation of cell \<open>2\<close> with \<open>1\<close> before the loop reaches
  cell \<open>2\<close>, which then fails the test \<^verbatim>\<open>gen < self.generation\<close> and attempts nothing:
  cell \<open>3\<close> stays uninfected although every attempt succeeds, and only four samples have
  been drawn in all (two by seeding, two by cell \<open>1\<close>), so the next sample is \<open>1/32\<close>.
\<close>

theorem overwritten_cell_skips_its_turn:
  "map_sum id (\<lambda>w. (infected (fst w), shd (uniform (snd w))))
     (simulation 1 8 (1 / 4) 1 1 halving_source)
   = Inr ([(0, None), (1, Some 0), (2, Some 1), (3, None), (4, None), (5, None), (6, None),
          (7, None)], 1 / 32)"
  by (simp add: halving_source_def run_simps)

text \<open>
  Claim C6. The claim asks that \<^verbatim>\<open>infect\<close> leaves an infected cell as it is and
  infects only when the sample is strictly below the probability. Both states below
  arise in round \<open>1\<close> on a grid of one row and four columns, when cell \<open>1\<close> attempts to
  infect cell \<open>2\<close>. In the first (seed fraction \<open>1/2\<close>, risk \<open>1\<close>) cell \<open>2\<close> is already
  infected with generation \<open>0\<close>, and the code assigns it generation \<open>1\<close>. In the second
  (seed fraction \<open>1/4\<close>, risk \<open>0\<close>) cell \<open>2\<close> is vacant, the sample is \<open>0\<close>, and the code
  infects the cell although the probability is \<open>0\<close>, as the comparison is \<^verbatim>\<open><=\<close>.
\<close>

theorem infect_overwrites_and_accepts_equal_sample:
  "infected (fst (infect 2 None
      ((Infection 1 4 (1 / 2) 1 1)\<lparr>generation := 1,
          infected := [(0, None), (1, Some 0), (2, Some 0), (3, None)]\<rparr>, zero_source)))
     = [(0, None), (1, Some 0), (2, Some 1), (3, None)]
   \<and> infected (fst (infect 2 None
      ((Infection 1 4 (1 / 4) 0 1)\<lparr>generation := 1,
          infected := [(0, None), (1, Some 0), (2, None), (3, None)]\<rparr>, zero_source)))
     = [(0, None), (1, Some 0), (2, Some 1), (3, None)]"
  by (simp add: zero_source_def Infection_def infect_def random_random_def upto.simps)

subsection \<open>Invariants of seeding and propagation\<close>

lemma update_fresh: "k \<notin> fst ` set al \<Longrightarrow> AList.update k v al = al @ [(k, v)]"
  by (induction al) auto

lemma fold_update_upto:
  "\<forall>k \<in> fst ` set acc. k < a \<Longrightarrow>
   fold (\<lambda>i d. AList.update i None d) [a .. b] acc = acc @ map (\<lambda>i. (i, None)) [a .. b]"
proof (induction "nat (b + 1 - a)" arbitrary: a acc)
  case 0
  then show ?case by simp
next
  case (Suc n)
  then have le: "a \<le> b" by linarith
  have fresh: "a \<notin> fst ` set acc" using Suc.prems by auto
  have "fold (\<lambda>i d. AList.update i None d) [a + 1 .. b] (acc @ [(a, None)])
      = (acc @ [(a, None)]) @ map (\<lambda>i. (i, None)) [a + 1 .. b]"
  proof (rule Suc.hyps(1))
    show "n = nat (b + 1 - (a + 1))" using Suc.hyps(2) by linarith
    show "\<forall>k \<in> fst ` set (acc @ [(a, None)]). k < a + 1"
      using Suc.prems by auto
  qed
  with le fresh show ?case
    by (simp add: upto_rec1[of a b] update_fresh)
qed

lemma infected_Infection:
  "infected (Infection r c sd rk its) = map (\<lambda>i. (i, None)) [0 .. r * c - 1]"
  using fold_update_upto[of "[]" 0 "r * c - 1"] by (simp add: Infection_def)

lemma wf_state_Infection: "0 < r \<Longrightarrow> 0 < c \<Longrightarrow> wf_state (Infection r c sd rk its)"
  by (simp add: wf_state_def infected_Infection comp_def) (simp add: Infection_def)

lemma wf_state_keys: "wf_state s \<Longrightarrow> pos \<in> fst ` set (infected s) \<longleftrightarrow> 0 \<le> pos \<and> pos < size_n s"
proof -
  assume "wf_state s"
  then have "set (map fst (infected s)) = {0 .. size_n s - 1}"
    by (simp add: wf_state_def)
  then show ?thesis by (simp only: set_map) auto
qed

lemma wf_state_distinct: "wf_state s \<Longrightarrow> distinct (map fst (infected s))"
  by (simp add: wf_state_def)

lemma wf_state_size_pos: "wf_state s \<Longrightarrow> 0 < size_n s"
  by (simp add: wf_state_def)

lemma infect_cases:
  "fst (infect pos a w) = fst w
   \<or> (pos \<noteq> 0 \<and> pos \<noteq> size_n (fst w) - 1
      \<and> fst (infect pos a w)
          = (fst w)\<lparr>infected := AList.update pos (Some (generation (fst w))) (infected (fst w))\<rparr>)"
  by (simp add: infect_def Let_def split: prod.splits)

lemma wf_state_infect:
  assumes "wf_state (fst w)" and "0 \<le> pos" and "pos < size_n (fst w)"
  shows "wf_state (fst (infect pos a w))"
proof -
  from assms have "pos \<in> set (map fst (infected (fst w)))"
    using wf_state_keys[of "fst w" pos] by simp
  then have "map fst (AList.update pos v (infected (fst w))) = map fst (infected (fst w))" for v
    by (simp add: update_keys)
  with assms(1) show ?thesis
    using infect_cases[of pos a w] by (auto simp: wf_state_def)
qed

lemma neighbours_in_range:
  assumes "wf_state s" and "0 \<le> pos" and "pos < size_n s"
    and "(k, Some n) \<in> set (get_neighbours s pos)"
  shows "0 \<le> n \<and> n < size_n s"
proof -
  from assms(1) have c: "0 < cols s" and sz: "size_n s = rows s * cols s"
    by (simp_all add: wf_state_def)
  have right: "pos + 1 < size_n s" if "(pos + 1) mod cols s \<noteq> 0"
  proof (rule ccontr)
    assume "\<not> pos + 1 < size_n s"
    with assms(3) have "pos + 1 = rows s * cols s" using sz by linarith
    then have "(pos + 1) mod cols s = 0" by simp
    with that show False by contradiction
  qed
  have left: "0 \<le> pos - 1" if "pos mod cols s \<noteq> 0"
  proof -
    from that have "pos \<noteq> 0" by auto
    with assms(2) show ?thesis by linarith
  qed
  from assms(4) show ?thesis
    using assms(2,3) c left right
    by (auto simp: get_neighbours_def Let_def split: if_splits)
qed

lemma infect_neighbours_preserves:
  assumes "P w"
    and "\<And>n k v. P v \<Longrightarrow> (k, Some n) \<in> set nbrs \<Longrightarrow> P (infect n None v)"
  shows "P (infect_neighbours nbrs w)"
  using assms
proof (induction nbrs w rule: infect_neighbours.induct)
  case (1 w)
  then show ?case by simp
next
  case (2 k rest w)
  then show ?case by simp
next
  case (3 k n rest w)
  have "P (infect n None w)"
    using "3.prems" by (meson list.set_intros(1))
  then show ?case
    using "3.IH" "3.prems"(2) by (simp, meson list.set_intros(2))
qed

lemma propagate_items_Cons:
  "propagate_items (i # rest) used w =
     (if length (infected (fst w)) \<noteq> used then Inl RuntimeError
      else propagate_items rest used
             (transmit (fst (infected (fst w) ! i)) (snd (infected (fst w) ! i)) w))"
  by (simp split: prod.splits)

lemma propagate_items_preserves:
  assumes "P w"
    and "\<And>i v. P v \<Longrightarrow> i \<in> set js \<Longrightarrow> length (infected (fst v)) = used
            \<Longrightarrow> P (transmit (fst (infected (fst v) ! i)) (snd (infected (fst v) ! i)) v)"
    and "propagate_items js used w = Inr w'"
  shows "P w'"
  using assms
proof (induction js arbitrary: w)
  case Nil
  then show ?case by (simp split: if_splits)
next
  case (Cons j js)
  from Cons.prems(3) have len: "length (infected (fst w)) = used"
    by (simp split: if_splits)
  let ?v = "transmit (fst (infected (fst w) ! j)) (snd (infected (fst w) ! j)) w"
  have "P ?v" using Cons.prems(1,2) len by simp
  moreover have "propagate_items js used ?v = Inr w'"
    using Cons.prems(3) len by (simp only: propagate_items_Cons if_False simp_thms)
  ultimately show ?case
    using Cons.IH[of ?v] Cons.prems(2) by simp
qed

lemma propagate_items_total:
  assumes "P w"
    and "\<And>i v. P v \<Longrightarrow> i \<in> set js \<Longrightarrow> length (infected (fst v)) = used
            \<Longrightarrow> P (transmit (fst (infected (fst v) ! i)) (snd (infected (fst v) ! i)) v)"
    and "\<And>v. P v \<Longrightarrow> length (infected (fst v)) = used"
  shows "\<exists>w'. propagate_items js used w = Inr w'"
  using assms
proof (induction js arbitrary: w)
  case Nil
  then show ?case by simp
next
  case (Cons j js)
  have len: "length (infected (fst w)) = used" using Cons.prems(1,3) by simp
  let ?v = "transmit (fst (infected (fst w) ! j)) (snd (infected (fst w) ! j)) w"
  have "P ?v" using Cons.prems(1,2) len by simp
  then have "\<exists>w'. propagate_items js used ?v = Inr w'"
    using Cons.IH[of ?v] Cons.prems(2,3) by simp
  then show ?case using len by (simp only: propagate_items_Cons if_False simp_thms)
qed

lemma get_neighbours_cong:
  "cols s = cols t \<Longrightarrow> size_n s = size_n t \<Longrightarrow> get_neighbours s pos = get_neighbours t pos"
  by (simp add: get_neighbours_def)

lemma item_lookup:
  assumes "wf_state s" and "i < length (infected s)"
  shows "map_of (infected s) (fst (infected s ! i)) = Some (snd (infected s ! i))"
    and "0 \<le> fst (infected s ! i)" and "fst (infected s ! i) < size_n s"
proof -
  have mem: "infected s ! i \<in> set (infected s)" using assms(2) by simp
  then have "(fst (infected s ! i), snd (infected s ! i)) \<in> set (infected s)" by simp
  then show "map_of (infected s) (fst (infected s ! i)) = Some (snd (infected s ! i))"
    using wf_state_distinct[OF assms(1)] by (simp only: map_of_eq_Some_iff)
  from mem have "fst (infected s ! i) \<in> fst ` set (infected s)" by (rule imageI)
  then show "0 \<le> fst (infected s ! i)" and "fst (infected s ! i) < size_n s"
    using wf_state_keys[OF assms(1)] by simp_all
qed

lemma same_grid_refl: "same_grid s s"
  by (simp add: same_grid_def)

lemma same_grid_infect:
  assumes "wf_state (fst w)" and "0 \<le> pos" and "pos < size_n (fst w)"
  shows "same_grid (fst w) (fst (infect pos a w))"
proof -
  from assms have "pos \<in> set (map fst (infected (fst w)))"
    using wf_state_keys[of "fst w" pos] by simp
  then have "map fst (AList.update pos v (infected (fst w))) = map fst (infected (fst w))" for v
    by (simp add: update_keys)
  then have "length (AList.update pos v (infected (fst w))) = length (infected (fst w))" for v
    by (metis length_map)
  then show ?thesis
    using infect_cases[of pos a w] by (auto simp: same_grid_def)
qed

lemma same_grid_trans: "same_grid s t \<Longrightarrow> same_grid t u \<Longrightarrow> same_grid s u"
  by (simp add: same_grid_def)

lemma round_inv_start:
  "wf_state s0 \<Longrightarrow> round_inv s0 (s0\<lparr>generation := generation s0 + 1\<rparr>, rnd)"
  by (simp add: round_inv_def wf_state_def same_grid_def vacant_def)

lemma round_inv_infect:
  assumes inv: "round_inv s0 v"
    and src: "map_of (infected s0) pos = Some (Some g)" "g \<le> generation s0"
    and nb: "(k, Some n) \<in> set (get_neighbours s0 pos)"
    and rng: "0 \<le> n" "n < size_n s0"
  shows "round_inv s0 (infect n None v)"
proof -
  from inv have wf: "wf_state (fst v)" and sg: "same_grid s0 (fst v)"
    and gen: "generation (fst v) = generation s0 + 1"
    by (simp_all add: round_inv_def)
  from sg have sz: "size_n (fst v) = size_n s0" by (simp add: same_grid_def)
  have wf': "wf_state (fst (infect n None v))"
    using wf rng sz by (intro wf_state_infect) simp_all
  have sg': "same_grid s0 (fst (infect n None v))"
    using same_grid_trans[OF sg same_grid_infect[OF wf, of n None]] rng sz by simp
  show ?thesis
  proof (cases "fst (infect n None v) = fst v")
    case True
    with inv show ?thesis by (simp add: round_inv_def)
  next
    case False
    then have nc: "n \<noteq> 0" "n \<noteq> size_n s0 - 1"
      and upd: "fst (infect n None v)
          = (fst v)\<lparr>infected := AList.update n (Some (generation s0 + 1)) (infected (fst v))\<rparr>"
      using infect_cases[of n None v] sz gen by auto
    have look: "map_of (infected (fst (infect n None v))) m
        = (if m = n then Some (Some (generation s0 + 1)) else map_of (infected (fst v)) m)" for m
      by (simp add: upd update_conv')
    show ?thesis
      unfolding round_inv_def
    proof (intro conjI allI impI)
      show "wf_state (fst (infect n None v))" by (rule wf')
      show "same_grid s0 (fst (infect n None v))" by (rule sg')
      show "generation (fst (infect n None v)) = generation s0 + 1"
        by (simp add: upd gen)
      show "vacant (fst (infect n None v)) 0" if "vacant s0 0"
        using that inv nc by (simp add: vacant_def look round_inv_def)
      show "vacant (fst (infect n None v)) (size_n s0 - 1)" if "vacant s0 (size_n s0 - 1)"
        using that inv nc by (simp add: vacant_def look round_inv_def)
    next
      fix m
      assume ch: "map_of (infected (fst (infect n None v))) m \<noteq> map_of (infected s0) m"
      show "map_of (infected (fst (infect n None v))) m = Some (Some (generation s0 + 1))"
        using ch inv by (cases "m = n") (simp_all add: look round_inv_def)
      show "\<exists>pos g k. map_of (infected s0) pos = Some (Some g) \<and> g \<le> generation s0
          \<and> (k, Some m) \<in> set (get_neighbours s0 pos)"
      proof (cases "m = n")
        case True
        with src nb show ?thesis by blast
      next
        case False
        with ch inv show ?thesis by (simp add: look round_inv_def)
      qed
    qed
  qed
qed

lemma round_inv_transmit:
  assumes inv: "round_inv s0 v" and wf0: "wf_state s0"
    and i: "i < length (infected (fst v))"
  shows "round_inv s0 (transmit (fst (infected (fst v) ! i)) (snd (infected (fst v) ! i)) v)"
proof -
  let ?pos = "fst (infected (fst v) ! i)" and ?gen = "snd (infected (fst v) ! i)"
  from inv have wf: "wf_state (fst v)" and sg: "same_grid s0 (fst v)"
    and gen: "generation (fst v) = generation s0 + 1"
    by (simp_all add: round_inv_def)
  from sg have sz: "size_n (fst v) = size_n s0" and cl: "cols (fst v) = cols s0"
    by (simp_all add: same_grid_def)
  note item = item_lookup[OF wf i]
  show ?thesis
  proof (cases ?gen)
    case None
    with inv show ?thesis by (simp add: transmit_def)
  next
    case (Some g)
    show ?thesis
    proof (cases "g < generation (fst v)")
      case False
      with Some inv show ?thesis by (simp add: transmit_def)
    next
      case True
      have live: "map_of (infected (fst v)) ?pos = Some (Some g)"
        using item(1) Some by simp
      have src: "map_of (infected s0) ?pos = Some (Some g)"
      proof (rule ccontr)
        assume "map_of (infected s0) ?pos \<noteq> Some (Some g)"
        with live have "map_of (infected (fst v)) ?pos \<noteq> map_of (infected s0) ?pos" by simp
        with inv have "map_of (infected (fst v)) ?pos = Some (Some (generation s0 + 1))"
          by (simp add: round_inv_def)
        with live gen True show False by simp
      qed
      have le: "g \<le> generation s0" using True gen by simp
      have nbs: "get_neighbours (fst v) ?pos = get_neighbours s0 ?pos"
        using cl sz by (rule get_neighbours_cong)
      have "round_inv s0 (infect_neighbours (get_neighbours s0 ?pos) v)"
      proof (rule infect_neighbours_preserves[where P = "round_inv s0"])
        show "round_inv s0 v" by (rule inv)
      next
        fix n k u
        assume u: "round_inv s0 u" and nb: "(k, Some n) \<in> set (get_neighbours s0 ?pos)"
        have "0 \<le> n \<and> n < size_n s0"
          using neighbours_in_range[OF wf0 _ _ nb] item(2,3) sz by simp
        then show "round_inv s0 (infect n None u)"
          using round_inv_infect[OF u src le nb] by simp
      qed
      with Some True nbs show ?thesis by (simp add: transmit_def)
    qed
  qed
qed

lemma propagate_round_inv:
  assumes wf0: "wf_state (fst w)" and rd: "propagate_round w = Inr w'"
  shows "round_inv (fst w) w'"
proof -
  let ?s1 = "(fst w)\<lparr>generation := generation (fst w) + 1\<rparr>"
  let ?n = "length (infected (fst w))"
  from rd have run: "propagate_items [0 ..< ?n] ?n (?s1, snd w) = Inr w'"
    by (simp add: propagate_round_def Let_def)
  show ?thesis
  proof (rule propagate_items_preserves[where P = "round_inv (fst w)", OF _ _ run])
    show "round_inv (fst w) (?s1, snd w)" using wf0 by (rule round_inv_start)
  next
    fix i v
    assume "round_inv (fst w) v" and "i \<in> set [0 ..< ?n]" and "length (infected (fst v)) = ?n"
    then show "round_inv (fst w)
        (transmit (fst (infected (fst v) ! i)) (snd (infected (fst v) ! i)) v)"
      using wf0 by (intro round_inv_transmit) simp_all
  qed
qed

lemma propagate_round_total:
  assumes wf0: "wf_state (fst w)"
  shows "\<exists>w'. propagate_round w = Inr w'"
proof -
  let ?s1 = "(fst w)\<lparr>generation := generation (fst w) + 1\<rparr>"
  let ?n = "length (infected (fst w))"
  have "\<exists>w'. propagate_items [0 ..< ?n] ?n (?s1, snd w) = Inr w'"
  proof (rule propagate_items_total[where P = "round_inv (fst w)"])
    show "round_inv (fst w) (?s1, snd w)" using wf0 by (rule round_inv_start)
  next
    fix i v
    assume "round_inv (fst w) v" and "i \<in> set [0 ..< ?n]" and "length (infected (fst v)) = ?n"
    then show "round_inv (fst w)
        (transmit (fst (infected (fst v) ! i)) (snd (infected (fst v) ! i)) v)"
      using wf0 by (intro round_inv_transmit) simp_all
  next
    fix v
    assume "round_inv (fst w) v"
    then show "length (infected (fst v)) = ?n"
      by (simp add: round_inv_def same_grid_def)
  qed
  then show ?thesis by (simp add: propagate_round_def Let_def)
qed

lemma infect_vacant_corner:
  assumes "c = 0 \<or> c = size_n (fst w) - 1" and "vacant (fst w) c"
  shows "vacant (fst (infect pos a w)) c"
  using infect_cases[of pos a w] assms by (auto simp: vacant_def update_conv')

lemma infect_size: "size_n (fst (infect pos a w)) = size_n (fst w)"
  by (simp add: infect_def Let_def split: prod.splits)

lemma spawn_loop_sound:
  assumes "wf_state (fst w)" and "vacant (fst w) 0" and "vacant (fst w) (size_n (fst w) - 1)"
    and "\<forall>p \<in> set ps. 0 \<le> p \<and> p < size_n (fst w)"
    and "spawn_loop k ps w = Inr w'"
  shows "wf_state (fst w') \<and> vacant (fst w') 0 \<and> vacant (fst w') (size_n (fst w') - 1)"
  using assms
proof (induction k arbitrary: ps w)
  case 0
  then show ?case by simp
next
  case (Suc k)
  from Suc.prems(5) have ne: "ps \<noteq> []"
    by (auto simp: random_choice_def split: if_splits)
  let ?p = "ps ! (shd (below (snd w)) mod length ps)"
  let ?v = "infect ?p (Some 1) (fst w, (snd w)\<lparr>below := stl (below (snd w))\<rparr>)"
  from ne have mem: "?p \<in> set ps" by simp
  with Suc.prems(4) have rng: "0 \<le> ?p" "?p < size_n (fst w)" by auto
  have run: "spawn_loop k (remove1 ?p ps) ?v = Inr w'"
    using Suc.prems(5) ne by (simp add: random_choice_def)
  have sz: "size_n (fst ?v) = size_n (fst w)" by (simp add: infect_size)
  show ?case
  proof (rule Suc.IH[OF _ _ _ _ run])
    show "wf_state (fst ?v)"
      using Suc.prems(1) rng by (intro wf_state_infect) simp_all
    show "vacant (fst ?v) 0"
      using Suc.prems(2) by (intro infect_vacant_corner) simp_all
    show "vacant (fst ?v) (size_n (fst ?v) - 1)"
      unfolding sz using Suc.prems(3) by (intro infect_vacant_corner) simp_all
    show "\<forall>p \<in> set (remove1 ?p ps). 0 \<le> p \<and> p < size_n (fst ?v)"
      unfolding sz using Suc.prems(4) by (meson notin_set_remove1)
  qed
qed

lemma vacant_Infection:
  "0 \<le> pos \<Longrightarrow> pos < r * c \<Longrightarrow> vacant (Infection r c sd rk its) pos"
proof -
  assume "0 \<le> pos" "pos < r * c"
  then have "pos \<in> set [0 .. r * c - 1]" by simp
  then have "map_of (map (\<lambda>i. (i, None :: int option)) [0 .. r * c - 1]) pos = Some None"
    by (simp add: map_of_map_restrict)
  then show ?thesis by (simp add: vacant_def infected_Infection)
qed

lemma spawn_sound:
  assumes "0 < r" and "0 < c" and "spawn (Infection r c sd rk its, rnd) = Inr w"
  shows "wf_state (fst w) \<and> vacant (fst w) 0 \<and> vacant (fst w) (size_n (fst w) - 1)"
proof -
  let ?s = "Infection r c sd rk its"
  have wf: "wf_state ?s" using assms(1,2) by (rule wf_state_Infection)
  have sz: "size_n ?s = r * c" by (simp add: Infection_def)
  have pos: "0 < r * c" using assms(1,2) by simp
  let ?ps = "filter (\<lambda>k. k \<notin> {0, size_n ?s - 1}) (map fst (infected ?s))"
  from spawn_Inr[OF assms(3)] obtain k where run: "spawn_loop k ?ps (?s, rnd) = Inr w"
    by auto
  have rng: "\<forall>p \<in> set ?ps. 0 \<le> p \<and> p < size_n (fst (?s, rnd))"
    using wf_state_keys[OF wf] by auto
  show ?thesis
  proof (rule spawn_loop_sound[OF _ _ _ rng run])
    show "wf_state (fst (?s, rnd))" using wf by simp
    show "vacant (fst (?s, rnd)) 0" using pos by (simp add: vacant_Infection)
    show "vacant (fst (?s, rnd)) (size_n (fst (?s, rnd)) - 1)"
      using pos by (simp add: sz vacant_Infection)
  qed
qed

lemma reachable_sound:
  "reachable w \<Longrightarrow>
     wf_state (fst w) \<and> vacant (fst w) 0 \<and> vacant (fst w) (size_n (fst w) - 1)"
proof (induction rule: reachable.induct)
  case (seeded r c sd rk its rnd w)
  then show ?case by (rule spawn_sound)
next
  case (round w w')
  then have "round_inv (fst w) w'" by (intro propagate_round_inv) simp_all
  with round.IH show ?case
    by (simp add: round_inv_def same_grid_def)
qed

lemma propagate_reachable:
  "reachable w \<Longrightarrow> propagate w = Inr w' \<Longrightarrow> reachable w'"
proof (induction w rule: propagate.induct)
  case (1 w)
  show ?case
  proof (cases "generation (fst w) < iterations (fst w)")
    case False
    with "1.prems" show ?thesis by (simp add: propagate.simps[of w])
  next
    case True
    with "1.prems"(2) obtain v where v: "propagate_round w = Inr v" and run: "propagate v = Inr w'"
      by (auto simp: propagate.simps[of w] split: sum.splits)
    from "1.prems"(1) True v have "reachable v" by (rule reachable.round)
    with "1.IH"[OF True v] run show ?thesis by simp
  qed
qed

lemma simulation_reachable:
  "0 < r \<Longrightarrow> 0 < c \<Longrightarrow> simulation r c sd rk its rnd = Inr w \<Longrightarrow> reachable w"
  by (auto simp: simulation_def split: sum.splits
      intro: propagate_reachable reachable.seeded)

subsection \<open>Corner immunity\<close>

text \<open>
  Claim C5. In every state of a run with positive dimensions, after seeding and after
  each round of propagation, whatever the random draws, the start cell \<open>0\<close> and the goal
  cell \<open>size - 1\<close> are not infected: their entries are \<^verbatim>\<open>None\<close>.
\<close>

theorem corners_never_infected:
  assumes "reachable w"
  shows "map_of (infected (fst w)) 0 = Some None
    \<and> map_of (infected (fst w)) (size_n (fst w) - 1) = Some None"
  using reachable_sound[OF assms] by (simp add: vacant_def)

theorem corners_never_infected_witness:
  "\<exists>w. simulation 1 4 (1 / 2) 1 1 zero_source = Inr w \<and> reachable w
     \<and> map_of (infected (fst w)) 0 = Some None
     \<and> map_of (infected (fst w)) (size_n (fst w) - 1) = Some None"
proof -
  obtain w where w: "simulation 1 4 (1 / 2) 1 1 zero_source = Inr w"
    by (simp add: zero_source_def run_simps propagate.simps)
  then have r: "reachable w"
    by (intro simulation_reachable[of 1 4 "1 / 2" 1 1 zero_source]) simp_all
  from w r corners_never_infected[OF r] show ?thesis by blast
qed

subsection \<open>No cascade within a round\<close>

lemma propagate_items_append:
  "propagate_items (xs @ ys) used w =
     (case propagate_items xs used w of Inl e \<Rightarrow> Inl e | Inr v \<Rightarrow> propagate_items ys used v)"
proof (induction xs arbitrary: w)
  case Nil
  show ?case by (cases ys) simp_all
next
  case (Cons x xs)
  then show ?case by (simp add: propagate_items_Cons del: propagate_items.simps(2))
qed

lemma round_state_0: "round_state w 0 = Inr ((fst w)\<lparr>generation := generation (fst w) + 1\<rparr>, snd w)"
  by (simp add: round_state_def)

lemma round_state_Suc:
  "round_state w (Suc j) =
     (case round_state w j of
        Inl e \<Rightarrow> Inl e
      | Inr v \<Rightarrow>
          let v' = transmit (fst (infected (fst v) ! j)) (snd (infected (fst v) ! j)) v
          in if length (infected (fst v')) \<noteq> length (infected (fst w)) then Inl RuntimeError
             else Inr v')"
proof -
  have "round_state w j = Inr v \<Longrightarrow> length (infected (fst v)) = length (infected (fst w))" for v
  proof (cases j)
    case 0
    assume "round_state w j = Inr v"
    with 0 show ?thesis by (auto simp: round_state_def)
  next
    case (Suc i)
    assume "round_state w j = Inr v"
    then have "propagate_items ([0 ..< i] @ [i]) (length (infected (fst w)))
        ((fst w)\<lparr>generation := generation (fst w) + 1\<rparr>, snd w) = Inr v"
      by (simp add: round_state_def Suc)
    then show ?thesis
      by (auto simp: propagate_items_append propagate_items_Cons
          simp del: propagate_items.simps(2) split: sum.splits if_splits)
  qed
  then show ?thesis
    by (auto simp: round_state_def propagate_items_append propagate_items_Cons Let_def
        simp del: propagate_items.simps(2) upt_Suc split: sum.splits
        simp add: upt_Suc_append)
qed

lemma propagate_round_round_state:
  "propagate_round w = round_state w (length (infected (fst w)))"
  by (simp add: propagate_round_def round_state_def)

lemma round_state_inv:
  assumes wf0: "wf_state (fst w)" and j: "j \<le> length (infected (fst w))"
    and st: "round_state w j = Inr v"
  shows "round_inv (fst w) v"
proof -
  let ?s1 = "(fst w)\<lparr>generation := generation (fst w) + 1\<rparr>"
  let ?n = "length (infected (fst w))"
  from st have run: "propagate_items [0 ..< j] ?n (?s1, snd w) = Inr v"
    by (simp add: round_state_def)
  show ?thesis
  proof (rule propagate_items_preserves[where P = "round_inv (fst w)", OF _ _ run])
    show "round_inv (fst w) (?s1, snd w)" using wf0 by (rule round_inv_start)
  next
    fix i u
    assume "round_inv (fst w) u" and "i \<in> set [0 ..< j]" and "length (infected (fst u)) = ?n"
    then show "round_inv (fst w)
        (transmit (fst (infected (fst u) ! i)) (snd (infected (fst u) ! i)) u)"
      using wf0 j by (intro round_inv_transmit) simp_all
  qed
qed

lemma no_attempt_of_new_cell:
  assumes inv: "round_inv s0 v" and i: "j < length (infected (fst v))"
    and item: "infected (fst v) ! j = (pos, gen)"
    and vac: "map_of (infected s0) pos = Some None"
  shows "transmit pos gen v = v"
proof (cases gen)
  case None
  then show ?thesis by (simp add: transmit_def)
next
  case (Some g)
  from inv have wf: "wf_state (fst v)" and gen: "generation (fst v) = generation s0 + 1"
    by (simp_all add: round_inv_def)
  from item_lookup(1)[OF wf i] item Some
  have live: "map_of (infected (fst v)) pos = Some (Some g)" by simp
  with vac have "map_of (infected (fst v)) pos \<noteq> map_of (infected s0) pos" by simp
  with inv have "map_of (infected (fst v)) pos = Some (Some (generation s0 + 1))"
    unfolding round_inv_def by blast
  with live gen have "g = generation (fst v)" by simp
  with Some show ?thesis by (simp add: transmit_def)
qed

lemma round_state_step:
  assumes wf0: "wf_state (fst w)" and j: "j < length (infected (fst w))"
    and st: "round_state w j = Inr v" and item: "infected (fst v) ! j = (pos, gen)"
  shows "round_state w (Suc j) = Inr (transmit pos gen v)"
proof -
  from wf0 j st have inv: "round_inv (fst w) v" by (intro round_state_inv) simp_all
  then have len: "length (infected (fst v)) = length (infected (fst w))"
    by (simp add: round_inv_def same_grid_def)
  have "round_inv (fst w) (transmit (fst (infected (fst v) ! j)) (snd (infected (fst v) ! j)) v)"
    using inv wf0 j len by (intro round_inv_transmit) simp_all
  then have "length (infected (fst (transmit pos gen v))) = length (infected (fst w))"
    using item by (simp add: round_inv_def same_grid_def)
  with st item show ?thesis by (simp add: round_state_Suc Let_def)
qed

text \<open>
  Claim C8. A round \<open>r\<close> of any run is the chain of the visits of its items, each visit
  being one call of the loop body on the item read at that moment. The visit of a cell
  that was not infected when the round began changes nothing, whether or not the cell
  has been infected earlier in the round: it infects no neighbour and draws no sample.
  So a cell first infected in round \<open>r\<close> makes no attempt in round \<open>r\<close>. Accordingly, a
  cell whose entry changes in the round receives the generation \<open>r\<close> and is a neighbour
  of a cell that was already infected when the round began, with a generation below
  \<open>r\<close>; the new cell's own attempts can take effect from round \<open>r + 1\<close> on.
\<close>

theorem no_cascade_within_round:
  assumes "reachable w" and "propagate_round w = Inr w'"
  shows "round_state w (length (infected (fst w))) = Inr w'
    \<and> (\<forall>j v pos gen. j < length (infected (fst w)) \<longrightarrow> round_state w j = Inr v
           \<longrightarrow> infected (fst v) ! j = (pos, gen)
           \<longrightarrow> round_state w (Suc j) = Inr (transmit pos gen v)
               \<and> (map_of (infected (fst w)) pos = Some None \<longrightarrow> transmit pos gen v = v))
    \<and> (\<forall>n. map_of (infected (fst w')) n \<noteq> map_of (infected (fst w)) n \<longrightarrow>
          map_of (infected (fst w')) n = Some (Some (generation (fst w) + 1))
          \<and> (\<exists>pos g k. map_of (infected (fst w)) pos = Some (Some g)
                \<and> g < generation (fst w) + 1
                \<and> (k, Some n) \<in> set (get_neighbours (fst w) pos)))"
proof (intro conjI allI impI)
  from assms(1) have wf: "wf_state (fst w)" using reachable_sound by blast
  show "round_state w (length (infected (fst w))) = Inr w'"
    using assms(2) by (simp add: propagate_round_round_state)
  {
    fix j v pos gen
    assume j: "j < length (infected (fst w))" and st: "round_state w j = Inr v"
      and item: "infected (fst v) ! j = (pos, gen)"
    from wf j st item show "round_state w (Suc j) = Inr (transmit pos gen v)"
      by (rule round_state_step)
    assume vac: "map_of (infected (fst w)) pos = Some None"
    from wf j st have inv: "round_inv (fst w) v" by (intro round_state_inv) simp_all
    then have "length (infected (fst v)) = length (infected (fst w))"
      by (simp add: round_inv_def same_grid_def)
    with j have "j < length (infected (fst v))" by simp
    with inv show "transmit pos gen v = v" using item vac by (rule no_attempt_of_new_cell)
  }
  fix n
  assume ch: "map_of (infected (fst w')) n \<noteq> map_of (infected (fst w)) n"
  from wf have inv: "round_inv (fst w) w'" using assms(2) by (rule propagate_round_inv)
  with ch show "map_of (infected (fst w')) n = Some (Some (generation (fst w) + 1))"
    unfolding round_inv_def by blast
  from inv ch show "\<exists>pos g k. map_of (infected (fst w)) pos = Some (Some g)
      \<and> g < generation (fst w) + 1 \<and> (k, Some n) \<in> set (get_neighbours (fst w) pos)"
    unfolding round_inv_def by fastforce
qed

theorem no_cascade_within_round_witness:
  "\<exists>w v w'. spawn (Infection 1 8 (1 / 8) 1 1, zero_source) = Inr w
     \<and> infected (fst w) = [(0, None), (1, Some 0), (2, None), (3, None), (4, None),
          (5, None), (6, None), (7, None)]
     \<and> round_state w 2 = Inr v
     \<and> infected (fst v) ! 2 = (2, Some 1)
     \<and> transmit 2 (Some 1) v = v
     \<and> propagate_round w = Inr w'
     \<and> infected (fst w') = [(0, None), (1, Some 0), (2, Some 1), (3, None), (4, None),
          (5, None), (6, None), (7, None)]
     \<and> (\<exists>pos g k. map_of (infected (fst w)) pos = Some (Some g) \<and> g < generation (fst w) + 1
          \<and> (k, Some 2) \<in> set (get_neighbours (fst w) pos))"
proof -
  let ?s = "\<lparr>rows = 1, cols = 8, seed = 1 / 8, risk = 1, iterations = 1, generation = 0,
      size_n = 8, route = None,
      infected = [(0, None), (1, Some 0), (2, None), (3, None), (4, None),
          (5, None), (6, None), (7, None)]\<rparr>"
  let ?s' = "\<lparr>rows = 1, cols = 8, seed = 1 / 8, risk = 1, iterations = 1, generation = 1,
      size_n = 8, route = None,
      infected = [(0, None), (1, Some 0), (2, Some 1), (3, None), (4, None),
          (5, None), (6, None), (7, None)]\<rparr>"
  have w: "spawn (Infection 1 8 (1 / 8) 1 1, zero_source) = Inr (?s, zero_source)"
    by (simp add: zero_source_def run_simps)
  have two: "[0 ..< 2] = [0, Suc 0]" by (simp add: numeral_2_eq_2)
  have v: "round_state (?s, zero_source) 2 = Inr (?s', zero_source)"
    by (simp add: zero_source_def round_state_def run_simps two)
  have w': "propagate_round (?s, zero_source) = Inr (?s', zero_source)"
    by (simp add: zero_source_def run_simps)
  have r: "reachable (?s, zero_source)"
    using w by (intro reachable.seeded[of 1 8 "1 / 8" 1 1 zero_source]) simp_all
  note inst = no_cascade_within_round[OF r w']
  from inst have "\<forall>j v pos gen. j < length (infected ?s) \<longrightarrow> round_state (?s, zero_source) j = Inr v
      \<longrightarrow> infected (fst v) ! j = (pos, gen)
      \<longrightarrow> round_state (?s, zero_source) (Suc j) = Inr (transmit pos gen v)
          \<and> (map_of (infected ?s) pos = Some None \<longrightarrow> transmit pos gen v = v)"
    by simp
  from this[rule_format, of 2 "(?s', zero_source)" 2 "Some 1"] v
  have a: "transmit 2 (Some 1) (?s', zero_source) = (?s', zero_source)"
    by simp
  from inst have "\<forall>n. map_of (infected ?s') n \<noteq> map_of (infected ?s) n \<longrightarrow>
      map_of (infected ?s') n = Some (Some (generation ?s + 1))
      \<and> (\<exists>pos g k. map_of (infected ?s) pos = Some (Some g) \<and> g < generation ?s + 1
            \<and> (k, Some n) \<in> set (get_neighbours ?s pos))"
    by simp
  from this[rule_format, of 2]
  have b: "\<exists>pos g k. map_of (infected ?s) pos = Some (Some g) \<and> g < generation ?s + 1
      \<and> (k, Some 2) \<in> set (get_neighbours ?s pos)"
    by simp
  show ?thesis
    using w v w' a b
    by (intro exI[of _ "(?s, zero_source)"] exI[of _ "(?s', zero_source)"]) simp
qed

subsection \<open>Breadth-first search returns a shortest clear route\<close>

lemma bfs_extend_Inl:
  "bfs_extend path goal ns queue = Inl r \<Longrightarrow> r = path @ [goal] \<and> goal \<in> set ns"
  by (induction ns arbitrary: queue) (auto simp: Let_def split: if_splits)

lemma bfs_extend_Inr:
  "bfs_extend path goal ns queue = Inr q' \<Longrightarrow>
     q' = queue @ map (\<lambda>n. path @ [n]) ns \<and> goal \<notin> set ns"
proof (induction ns arbitrary: queue)
  case Nil
  then show ?case by simp
next
  case (Cons a ns)
  from Cons.prems have a: "a \<noteq> goal"
    and run: "bfs_extend path goal ns (queue @ [path @ [a]]) = Inr q'"
    by (auto simp: Let_def split: if_splits)
  from Cons.IH[OF run] a show ?case by simp
qed

lemma walk_snoc: "walk al p \<Longrightarrow> edge al (last p) n \<Longrightarrow> walk al (p @ [n])"
  by (auto simp: walk_def successively_append_iff)

lemma walk_butlast:
  assumes "walk al q" and "2 \<le> length q"
  shows "walk al (butlast q) \<and> edge al (last (butlast q)) (last q)
    \<and> length (butlast q) = length q - 1"
proof -
  from assms(2) have ne: "butlast q \<noteq> []"
    by (cases q rule: rev_cases) auto
  have q: "q = butlast q @ [last q]"
    using assms(1) by (simp add: walk_def)
  have "successively (edge al) (butlast q @ [last q])"
    using assms(1) q by (simp add: walk_def)
  then have "successively (edge al) (butlast q)" and "edge al (last (butlast q)) (last q)"
    using ne by (simp_all add: successively_append_iff)
  moreover have "hd (butlast q) = 0"
    using assms(1) ne q by (metis hd_append2 walk_def)
  ultimately show ?thesis using ne by (simp add: walk_def)
qed

lemma walk_single: "walk al q \<Longrightarrow> length q = 1 \<Longrightarrow> q = [0]"
  by (cases q) (auto simp: walk_def)

lemma walk_length: "walk al q \<Longrightarrow> 1 \<le> length q"
  by (cases q) (auto simp: walk_def)

lemma bfs_inv_level:
  assumes inv: "bfs_inv al goal (p0 # tail) visited"
    and q: "walk al q" and len: "length q = length p0"
  shows "last q \<in> set visited \<or> last q = last p0
    \<or> (\<exists>p \<in> set tail. last p = last q \<and> length p = length p0)"
proof (cases "length q = 1")
  case True
  from inv have "walk al p0" by (simp add: bfs_inv_def)
  with True len q have "q = [0]" "p0 = [0]" by (simp_all add: walk_single)
  then show ?thesis by simp
next
  case False
  with walk_length[OF q] have two: "2 \<le> length q" by simp
  note b = walk_butlast[OF q two]
  from b len have "length (butlast q) < length (hd (p0 # tail))" using two by simp
  with inv b have vis: "last (butlast q) \<in> set visited"
    unfolding bfs_inv_def by blast
  from inv b vis have "last q \<in> set visited
      \<or> (\<exists>p \<in> set (p0 # tail). last p = last q \<and> length p \<le> Suc (length (butlast q)))"
    unfolding bfs_inv_def by blast
  moreover have "Suc (length (butlast q)) = length p0" using b len two by simp
  moreover have "\<forall>p \<in> set tail. length p0 \<le> length p"
    using inv by (auto simp: bfs_inv_def)
  ultimately show ?thesis by force
qed

lemma sorted_map_const: "\<forall>x \<in> set xs. f x = (c::nat) \<Longrightarrow> sorted (map f xs)"
  by (induction xs) auto

lemma bfs_inv_next:
  assumes inv: "bfs_inv al goal (p0 # tail) visited"
    and c: "last p0 \<in> set visited'" and sub: "set visited \<subseteq> set visited'"
    and g: "goal \<notin> set visited'"
    and new: "\<forall>p \<in> set new. walk al p \<and> last p \<noteq> goal \<and> length p = Suc (length p0)"
    and fresh: "\<And>q n. walk al q \<Longrightarrow> last q \<in> set visited' \<Longrightarrow> last q \<notin> set visited
        \<Longrightarrow> edge al (last q) n
        \<Longrightarrow> n \<in> set visited' \<or> (\<exists>p \<in> set (tail @ new). last p = n \<and> length p \<le> Suc (length q))"
  shows "bfs_inv al goal (tail @ new) visited'"
proof -
  let ?k = "length p0"
  from inv have tail_w: "\<forall>p \<in> set tail. walk al p \<and> last p \<noteq> goal"
    and srt: "sorted (map length (p0 # tail))"
    and bnd: "\<forall>p \<in> set tail. length p \<le> Suc ?k"
    and old_a: "\<And>q. walk al q \<Longrightarrow> length q < ?k \<Longrightarrow> last q \<in> set visited"
    and old_v: "\<And>q n. walk al q \<Longrightarrow> last q \<in> set visited \<Longrightarrow> edge al (last q) n
        \<Longrightarrow> n \<in> set visited \<or> (\<exists>p \<in> set (p0 # tail). last p = n \<and> length p \<le> Suc (length q))"
    unfolding bfs_inv_def by simp_all
  from srt have low: "\<forall>p \<in> set tail. ?k \<le> length p" and srt_tail: "sorted (map length tail)"
    by simp_all
  have all_low: "\<forall>p \<in> set (tail @ new). ?k \<le> length p"
    using low new by auto
  have all_bnd: "\<forall>p \<in> set (tail @ new). length p \<le> Suc ?k"
    using bnd new by auto
  have srt': "sorted (map length (tail @ new))"
    using srt_tail bnd new by (auto simp: sorted_append intro!: sorted_map_const)
  have hd_min: "length (hd (tail @ new)) \<le> length p" if "p \<in> set (tail @ new)" for p
  proof (cases "tail @ new")
    case Nil
    with that show ?thesis by simp
  next
    case (Cons a as)
    with srt' that show ?thesis by auto
  qed
  show ?thesis
    unfolding bfs_inv_def
  proof (intro conjI ballI allI impI)
    fix p assume "p \<in> set (tail @ new)"
    then show "walk al p" and "last p \<noteq> goal" using tail_w new by auto
  next
    show "sorted (map length (tail @ new))" by (rule srt')
  next
    fix p assume p: "p \<in> set (tail @ new)"
    then have "tail @ new \<noteq> []" by auto
    then have "hd (tail @ new) \<in> set (tail @ new)" by (rule hd_in_set)
    with all_low have "?k \<le> length (hd (tail @ new))" by blast
    with all_bnd p show "length p \<le> Suc (length (hd (tail @ new)))" by force
  next
    show "goal \<notin> set visited'" by (rule g)
  next
    fix q
    assume q: "walk al q" and ne: "tail @ new \<noteq> []"
      and lt: "length q < length (hd (tail @ new))"
    from ne have "hd (tail @ new) \<in> set (tail @ new)" by (rule hd_in_set)
    with all_bnd have "length (hd (tail @ new)) \<le> Suc ?k" by blast
    with lt have le: "length q \<le> ?k" by simp
    show "last q \<in> set visited'"
    proof (cases "length q < ?k")
      case True
      with old_a[OF q] sub show ?thesis by blast
    next
      case False
      with le have eq: "length q = ?k" by simp
      from bfs_inv_level[OF inv q eq] show ?thesis
      proof (elim disjE bexE conjE)
        assume "last q \<in> set visited"
        with sub show ?thesis by blast
      next
        assume "last q = last p0"
        with c show ?thesis by simp
      next
        fix p assume "p \<in> set tail" and "length p = ?k"
        then have "length (hd (tail @ new)) \<le> ?k" using hd_min[of p] by simp
        with lt eq show ?thesis by simp
      qed
    qed
  next
    fix q n
    assume q: "walk al q" and vis: "last q \<in> set visited'" and e: "edge al (last q) n"
    show "n \<in> set visited'
        \<or> (\<exists>p \<in> set (tail @ new). last p = n \<and> length p \<le> Suc (length q))"
    proof (cases "last q \<in> set visited")
      case False
      with fresh[OF q vis _ e] show ?thesis by simp
    next
      case True
      from old_v[OF q True e] show ?thesis
      proof (elim disjE bexE conjE)
        assume "n \<in> set visited"
        with sub show ?thesis by blast
      next
        fix p assume p: "p \<in> set (p0 # tail)" and l: "last p = n"
          and len: "length p \<le> Suc (length q)"
        show ?thesis
        proof (cases "p = p0")
          case True
          with l c show ?thesis by simp
        next
          case False
          with p have "p \<in> set (tail @ new)" by simp
          with l len show ?thesis by blast
        qed
      qed
    qed
  qed
qed

lemma bfs_inv_skip:
  assumes "bfs_inv al goal (p0 # tail) visited" and "last p0 \<in> set visited"
  shows "bfs_inv al goal tail visited"
proof -
  from assms(1) have g: "goal \<notin> set visited" by (simp add: bfs_inv_def)
  have "bfs_inv al goal (tail @ []) visited"
    using assms(1,2) _ g by (rule bfs_inv_next) simp_all
  then show ?thesis by simp
qed

lemma bfs_inv_expand:
  assumes inv: "bfs_inv al goal (p0 # tail) visited" and nv: "last p0 \<notin> set visited"
    and key: "map_of al (last p0) = Some ns" and ng: "goal \<notin> set ns"
  shows "bfs_inv al goal (tail @ map (\<lambda>n. p0 @ [n]) ns) (visited @ [last p0])"
proof (rule bfs_inv_next[OF inv])
  from inv have w0: "walk al p0" and l0: "last p0 \<noteq> goal" and g: "goal \<notin> set visited"
    and old_a: "\<And>q. walk al q \<Longrightarrow> length q < length p0 \<Longrightarrow> last q \<in> set visited"
    unfolding bfs_inv_def by simp_all
  show "last p0 \<in> set (visited @ [last p0])" by simp
  show "set visited \<subseteq> set (visited @ [last p0])" by auto
  show "goal \<notin> set (visited @ [last p0])" using g l0 by auto
  show "\<forall>p \<in> set (map (\<lambda>n. p0 @ [n]) ns).
      walk al p \<and> last p \<noteq> goal \<and> length p = Suc (length p0)"
    using w0 key ng by (auto simp: edge_def intro!: walk_snoc)
  fix q n
  assume q: "walk al q" and "last q \<in> set (visited @ [last p0])" and "last q \<notin> set visited"
    and e: "edge al (last q) n"
  then have lq: "last q = last p0" by simp
  with e key have n: "n \<in> set ns" by (simp add: edge_def)
  have "length p0 \<le> length q"
  proof (rule ccontr)
    assume "\<not> length p0 \<le> length q"
    then have "last q \<in> set visited" using old_a[OF q] by simp
    with lq nv show False by simp
  qed
  with n show "n \<in> set (visited @ [last p0])
      \<or> (\<exists>p \<in> set (tail @ map (\<lambda>n. p0 @ [n]) ns). last p = n \<and> length p \<le> Suc (length q))"
    by (intro disjI2 bexI[of _ "p0 @ [n]"]) simp_all
qed

lemma bfs_inv_return:
  assumes inv: "bfs_inv al goal (p0 # tail) visited" and nv: "last p0 \<notin> set visited"
    and key: "map_of al (last p0) = Some ns" and g: "goal \<in> set ns"
  shows "walk al (p0 @ [goal]) \<and> (\<forall>q. walk al q \<and> last q = goal \<longrightarrow> Suc (length p0) \<le> length q)"
proof (intro conjI allI impI)
  from inv have w0: "walk al p0" by (simp add: bfs_inv_def)
  then show "walk al (p0 @ [goal])"
    using key g by (intro walk_snoc) (simp_all add: edge_def)
next
  fix q assume q: "walk al q \<and> last q = goal"
  from inv have gv: "goal \<notin> set visited"
    and gq: "\<forall>p \<in> set (p0 # tail). last p \<noteq> goal"
    and old_a: "\<And>q. walk al q \<Longrightarrow> length q < length p0 \<Longrightarrow> last q \<in> set visited"
    unfolding bfs_inv_def by simp_all
  show "Suc (length p0) \<le> length q"
  proof (rule ccontr)
    assume "\<not> Suc (length p0) \<le> length q"
    then consider "length q < length p0" | "length q = length p0" by linarith
    then show False
    proof cases
      case 1
      with old_a q gv show False by blast
    next
      case 2
      from bfs_inv_level[OF inv _ 2] q gv gq show False by auto
    qed
  qed
qed

lemma bfs_loop_shortest:
  assumes "bfs_inv al goal queue visited" and "bfs_loop al goal queue visited = Inr (Some r)"
  shows "walk al r \<and> last r = goal \<and> (\<forall>q. walk al q \<and> last q = goal \<longrightarrow> length r \<le> length q)"
  using assms
proof (induction al goal queue visited rule: bfs_loop.induct)
  case (1 alist goal visited)
  then show ?case by (simp add: bfs_loop.simps)
next
  case (2 alist goal path queue visited)
  from "2.prems"(1) have "walk alist path" by (simp add: bfs_inv_def)
  then have ne: "path \<noteq> []" by (simp add: walk_def)
  show ?case
  proof (cases "last path \<in> set visited")
    case True
    with "2.prems"(2) ne have run: "bfs_loop alist goal queue visited = Inr (Some r)"
      by (simp add: bfs_loop.simps Let_def)
    from "2.prems"(1) True have "bfs_inv alist goal queue visited" by (rule bfs_inv_skip)
    with "2.IH"(1)[OF ne refl True] run show ?thesis by simp
  next
    case False
    with "2.prems"(2) ne obtain ns where key: "map_of alist (last path) = Some ns"
      by (auto simp: bfs_loop.simps Let_def split: option.splits)
    show ?thesis
    proof (cases "bfs_extend path goal ns queue")
      case (Inl new_path)
      with "2.prems"(2) ne False key have r: "r = new_path"
        by (simp add: bfs_loop.simps Let_def)
      from bfs_extend_Inl[OF Inl] have np: "new_path = path @ [goal]" and g: "goal \<in> set ns"
        by simp_all
      from bfs_inv_return[OF "2.prems"(1) False key g] r np show ?thesis by simp
    next
      case (Inr queue')
      with "2.prems"(2) ne False key
      have run: "bfs_loop alist goal queue' (visited @ [last path]) = Inr (Some r)"
        by (simp add: bfs_loop.simps Let_def)
      from bfs_extend_Inr[OF Inr] have q': "queue' = queue @ map (\<lambda>n. path @ [n]) ns"
        and g: "goal \<notin> set ns" by simp_all
      from bfs_inv_expand[OF "2.prems"(1) False key g] q'
      have "bfs_inv alist goal queue' (visited @ [last path])" by simp
      with "2.IH"(2)[OF ne refl False key Inr] run show ?thesis by simp
    qed
  qed
qed

lemma bfs_inv_initial: "goal \<noteq> 0 \<Longrightarrow> bfs_inv al goal ([0] # []) []"
  by (auto simp: bfs_inv_def walk_def)

lemma step_left:
  assumes "0 < (c::int)" and "a mod c \<noteq> 0"
  shows "(a - 1) div c = a div c \<and> (a - 1) mod c = a mod c - 1"
proof -
  have r: "0 \<le> a mod c - 1" "a mod c - 1 < c"
    using assms pos_mod_sign[of c a] pos_mod_bound[of c a] by linarith+
  have e: "a - 1 = c * (a div c) + (a mod c - 1)"
    using mult_div_mod_eq[of c a] by linarith
  show ?thesis
    using int_div_pos_eq[OF e r] int_mod_pos_eq[OF e r] by simp
qed

lemma step_right:
  assumes "0 < (c::int)" and "(a + 1) mod c \<noteq> 0"
  shows "(a + 1) div c = a div c \<and> (a + 1) mod c = a mod c + 1"
  using step_left[OF assms] by simp

lemma same_row:
  assumes "0 < (c::int)" and "a div c = b div c" and "\<bar>a mod c - b mod c\<bar> = 1"
  shows "(b = a - 1 \<and> a mod c \<noteq> 0) \<or> (b = a + 1 \<and> (a + 1) mod c \<noteq> 0)"
proof -
  have a: "a = c * (a div c) + a mod c" and b: "b = c * (a div c) + b mod c"
    using mult_div_mod_eq[of c a] mult_div_mod_eq[of c b] assms(2) by simp_all
  have nn: "0 \<le> a mod c" "0 \<le> b mod c"
    using assms(1) by simp_all
  from assms(3) consider "b mod c = a mod c - 1" | "b mod c = a mod c + 1" by linarith
  then show ?thesis
  proof cases
    case 1
    with a b have "b = a - 1" by linarith
    moreover from 1 nn have "a mod c \<noteq> 0" by linarith
    ultimately show ?thesis by simp
  next
    case 2
    with a b have e: "b = a + 1" by linarith
    from e have "(a + 1) mod c = b mod c" by simp
    with 2 nn have "(a + 1) mod c \<noteq> 0" by linarith
    with e show ?thesis by simp
  qed
qed

lemma same_column:
  assumes "0 < (c::int)" and "a mod c = b mod c" and "\<bar>a div c - b div c\<bar> = 1"
  shows "b = a - c \<or> b = a + c"
proof -
  have a: "a = c * (a div c) + a mod c" and b: "b = c * (b div c) + a mod c"
    using mult_div_mod_eq[of c a] mult_div_mod_eq[of c b] assms(2) by simp_all
  from assms(3) consider "b div c = a div c - 1" | "b div c = a div c + 1" by linarith
  then show ?thesis
  proof cases
    case 1
    then have "c * (b div c) = c * (a div c) - c" by (simp add: right_diff_distrib)
    with a b show ?thesis by linarith
  next
    case 2
    then have "c * (b div c) = c * (a div c) + c" by (simp add: distrib_left)
    with a b show ?thesis by linarith
  qed
qed

lemma neighbours_grid_adjacent:
  assumes wf: "wf_state s" and a: "0 \<le> a" "a < size_n s"
  shows "(\<exists>k. (k, Some b) \<in> set (get_neighbours s a))
    \<longleftrightarrow> 0 \<le> b \<and> b < size_n s \<and> grid_adjacent (cols s) a b"
proof
  assume "\<exists>k. (k, Some b) \<in> set (get_neighbours s a)"
  then obtain k where k: "(k, Some b) \<in> set (get_neighbours s a)" ..
  from wf have c: "0 < cols s" by (simp add: wf_state_def)
  have rng: "0 \<le> b \<and> b < size_n s"
    using neighbours_in_range[OF wf a k] .
  from k consider "b = a - cols s" | "b = a + cols s"
    | "b = a - 1" "a mod cols s \<noteq> 0" | "b = a + 1" "(a + 1) mod cols s \<noteq> 0"
    by (auto simp: get_neighbours_def Let_def split: if_splits)
  then have "grid_adjacent (cols s) a b"
  proof cases
    case 1
    have "(a - cols s) div cols s = a div cols s - 1"
      using c div_add_self2[of "cols s" "a - cols s"] by simp
    with 1 show ?thesis by (simp add: grid_adjacent_def)
  next
    case 2
    with c show ?thesis by (simp add: grid_adjacent_def)
  next
    case 3
    with step_left[OF c 3(2)] show ?thesis by (simp add: grid_adjacent_def)
  next
    case 4
    with step_right[OF c 4(2)] show ?thesis by (simp add: grid_adjacent_def)
  qed
  with rng show "0 \<le> b \<and> b < size_n s \<and> grid_adjacent (cols s) a b" by simp
next
  assume r: "0 \<le> b \<and> b < size_n s \<and> grid_adjacent (cols s) a b"
  from wf have c: "0 < cols s" by (simp add: wf_state_def)
  from r consider "a div cols s = b div cols s" "\<bar>a mod cols s - b mod cols s\<bar> = 1"
    | "a mod cols s = b mod cols s" "\<bar>a div cols s - b div cols s\<bar> = 1"
    by (auto simp: grid_adjacent_def)
  then show "\<exists>k. (k, Some b) \<in> set (get_neighbours s a)"
  proof cases
    case 1
    from same_row[OF c 1] show ?thesis
    proof (elim disjE conjE)
      assume "b = a - 1" and "a mod cols s \<noteq> 0"
      then have "(''l'', Some b) \<in> set (get_neighbours s a)"
        by (simp add: get_neighbours_def Let_def)
      then show ?thesis ..
    next
      assume "b = a + 1" and "(a + 1) mod cols s \<noteq> 0"
      then have "(''r'', Some b) \<in> set (get_neighbours s a)"
        by (simp add: get_neighbours_def Let_def)
      then show ?thesis ..
    qed
  next
    case 2
    from same_column[OF c 2] show ?thesis
    proof (elim disjE)
      assume "b = a - cols s"
      with r have "(''u'', Some b) \<in> set (get_neighbours s a)"
        by (simp add: get_neighbours_def Let_def)
      then show ?thesis ..
    next
      assume "b = a + cols s"
      with r have "(''d'', Some b) \<in> set (get_neighbours s a)"
        by (simp add: get_neighbours_def Let_def)
      then show ?thesis ..
    qed
  qed
qed

lemma vacant_neighbours_Inr:
  assumes "\<And>k n. (k, Some n) \<in> set nbrs \<Longrightarrow> map_of d n \<noteq> None"
  shows "\<exists>ns. vacant_neighbours d nbrs = Inr ns
    \<and> set ns = {n. (\<exists>k. (k, Some n) \<in> set nbrs) \<and> map_of d n = Some None}"
  using assms
proof (induction d nbrs rule: vacant_neighbours.induct)
  case (1 d)
  then show ?case by simp
next
  case (2 d k rest)
  then have "\<exists>ns. vacant_neighbours d rest = Inr ns
      \<and> set ns = {n. (\<exists>k. (k, Some n) \<in> set rest) \<and> map_of d n = Some None}"
    by (meson list.set_intros(2))
  then show ?case by auto
next
  case (3 d k n rest)
  from "3.prems"[of k n] obtain g where g: "map_of d n = Some g" by auto
  have rest: "\<And>k' n'. (k', Some n') \<in> set rest \<Longrightarrow> map_of d n' \<noteq> None"
    using "3.prems" by (meson list.set_intros(2))
  have "\<exists>ns. vacant_neighbours d rest = Inr ns
      \<and> set ns = {n. (\<exists>k. (k, Some n) \<in> set rest) \<and> map_of d n = Some None}"
    using g rest by (rule "3.IH")
  then obtain ns where ns: "vacant_neighbours d rest = Inr ns"
    and set_ns: "set ns = {n. (\<exists>k. (k, Some n) \<in> set rest) \<and> map_of d n = Some None}"
    by blast
  show ?case
  proof (cases g)
    case None
    with g ns set_ns show ?thesis by auto
  next
    case (Some x)
    with g ns set_ns show ?thesis by auto
  qed
qed

lemma vacant_in_range: "wf_state s \<Longrightarrow> vacant s a \<Longrightarrow> 0 \<le> a \<and> a < size_n s"
proof -
  assume wf: "wf_state s" and "vacant s a"
  then have "(a, None) \<in> set (infected s)"
    by (simp add: vacant_def map_of_SomeD)
  then have "a \<in> fst ` set (infected s)" by force
  with wf_state_keys[OF wf] show ?thesis by simp
qed

lemma vacant_item: "wf_state s \<Longrightarrow> vacant s a \<longleftrightarrow> (a, None) \<in> set (infected s)"
  using wf_state_distinct[of s] by (simp add: vacant_def)

lemma adjacency_entry:
  assumes wf: "wf_state s" and v: "vacant s a"
  shows "\<exists>ns. vacant_neighbours (infected s) (get_neighbours s a) = Inr ns \<and> adj_entry s a ns"
proof -
  note rng = vacant_in_range[OF wf v]
  have "map_of (infected s) n \<noteq> None" if "(k, Some n) \<in> set (get_neighbours s a)" for k n
  proof -
    from neighbours_in_range[OF wf _ _ that] rng have "0 \<le> n \<and> n < size_n s" by simp
    then have "n \<in> fst ` set (infected s)" using wf_state_keys[OF wf] by simp
    then show ?thesis by (simp add: map_of_eq_None_iff)
  qed
  from vacant_neighbours_Inr[of "get_neighbours s a" "infected s", OF this] v
  show ?thesis by (simp add: adj_entry_def vacant_def)
qed

lemma adjacency_items_entries:
  assumes "wf_state s" and "set items \<subseteq> set (infected s)"
    and "\<forall>a ns. map_of al a = Some ns \<longrightarrow> adj_entry s a ns"
  shows "\<exists>al'. adjacency_items s items al = Inr al'
    \<and> (\<forall>a ns. map_of al' a = Some ns \<longrightarrow> adj_entry s a ns)
    \<and> dom (map_of al') = dom (map_of al) \<union> {a. (a, None) \<in> set items}"
  using assms
proof (induction s items al rule: adjacency_items.induct)
  case (1 s al)
  then show ?case by simp
next
  case (2 s pos g rest al)
  then have "\<exists>al'. adjacency_items s rest al = Inr al'
    \<and> (\<forall>a ns. map_of al' a = Some ns \<longrightarrow> adj_entry s a ns)
    \<and> dom (map_of al') = dom (map_of al) \<union> {a. (a, None) \<in> set rest}"
    by simp
  then show ?case by simp
next
  case (3 s pos rest al)
  from "3.prems"(2) have "(pos, None) \<in> set (infected s)" by simp
  with "3.prems"(1) have v: "vacant s pos" by (simp add: vacant_item)
  from adjacency_entry[OF "3.prems"(1) v] obtain ns
    where ns: "vacant_neighbours (infected s) (get_neighbours s pos) = Inr ns"
      and e: "adj_entry s pos ns" by blast
  have "\<exists>al'. adjacency_items s rest (AList.update pos ns al) = Inr al'
    \<and> (\<forall>a ns. map_of al' a = Some ns \<longrightarrow> adj_entry s a ns)
    \<and> dom (map_of al') = dom (map_of (AList.update pos ns al)) \<union> {a. (a, None) \<in> set rest}"
  proof (rule "3.IH"[OF ns "3.prems"(1)])
    show "set rest \<subseteq> set (infected s)" using "3.prems"(2) by simp
    show "\<forall>a ns'. map_of (AList.update pos ns al) a = Some ns' \<longrightarrow> adj_entry s a ns'"
      using "3.prems"(3) e by (simp add: update_conv')
  qed
  then obtain al' where "adjacency_items s rest (AList.update pos ns al) = Inr al'"
    and "\<forall>a ns. map_of al' a = Some ns \<longrightarrow> adj_entry s a ns"
    and "dom (map_of al') = dom (map_of (AList.update pos ns al)) \<union> {a. (a, None) \<in> set rest}"
    by blast
  with ns show ?case
    by (auto simp: update_conv')
qed

lemma adjacency_list_edges:
  assumes wf: "wf_state s"
  shows "\<exists>al. adjacency_list s = Inr al
    \<and> (\<forall>a. map_of al a \<noteq> None \<longleftrightarrow> vacant s a)
    \<and> (\<forall>a b. edge al a b \<longleftrightarrow> vacant s a \<and> vacant s b \<and> grid_adjacent (cols s) a b)"
proof -
  from adjacency_items_entries[OF wf, of "infected s" "[]"]
  obtain al where al: "adjacency_items s (infected s) [] = Inr al"
    and ent: "\<And>a ns. map_of al a = Some ns \<Longrightarrow> adj_entry s a ns"
    and dm: "dom (map_of al) = {a. (a, None) \<in> set (infected s)}"
    by auto
  have keys: "map_of al a \<noteq> None \<longleftrightarrow> vacant s a" for a
    using dm vacant_item[OF wf, of a] by (auto simp: dom_def)
  have edges: "edge al a b \<longleftrightarrow> vacant s a \<and> vacant s b \<and> grid_adjacent (cols s) a b" for a b
  proof (cases "map_of al a")
    case None
    with keys[of a] show ?thesis by (simp add: edge_def)
  next
    case (Some ns)
    from ent[OF Some] have v: "vacant s a"
      and ns: "set ns = {b. (\<exists>k. (k, Some b) \<in> set (get_neighbours s a)) \<and> vacant s b}"
      by (simp_all add: adj_entry_def)
    note rng = vacant_in_range[OF wf v]
    have "b \<in> set ns \<longleftrightarrow> vacant s b \<and> grid_adjacent (cols s) a b"
      using ns neighbours_grid_adjacent[OF wf, of a b] rng vacant_in_range[OF wf, of b]
      by auto
    with Some v show ?thesis by (simp add: edge_def)
  qed
  from al keys edges show ?thesis by (auto simp: adjacency_list_def)
qed

lemma successively_endpoints:
  assumes "successively R p" and "2 \<le> length p" and "\<And>a b. R a b \<Longrightarrow> V a \<and> V b"
  shows "list_all V p"
  using assms(1,2)
proof (induction p rule: induct_list012)
  case 1
  then show ?case by simp
next
  case (2 x)
  then show ?case by simp
next
  case (3 x y xs)
  from "3.prems"(1) have xy: "R x y" and rest: "successively R (y # xs)" by simp_all
  from assms(3)[OF xy] have v: "V x" "V y" by simp_all
  show ?case
  proof (cases xs)
    case Nil
    with v show ?thesis by simp
  next
    case (Cons z zs)
    with "3.IH"(2) rest have "list_all V (y # xs)" by simp
    with v show ?thesis by simp
  qed
qed

lemma successively_upgrade:
  assumes "successively R p" and "list_all V p"
    and "\<And>a b. R a b \<Longrightarrow> V a \<Longrightarrow> V b \<Longrightarrow> E a b"
  shows "successively E p"
  using assms(1,2)
proof (induction p rule: induct_list012)
  case (3 x y xs)
  then have "R x y" "V x" "V y" "successively E (y # xs)" by simp_all
  with assms(3)[of x y] show ?case by simp
qed simp_all

lemma bfs_single_cell:
  assumes wf: "wf_state s" and one: "size_n s = 1" and al: "adjacency_list s = Inr al"
    and edges: "\<And>a b. edge al a b \<longleftrightarrow> vacant s a \<and> vacant s b \<and> grid_adjacent (cols s) a b"
  shows "bfs_loop al 0 ([0] # []) [] \<noteq> Inr (Some rt)"
proof (cases "map_of al 0")
  case None
  then show ?thesis by (simp add: bfs_loop.simps)
next
  case (Some ns)
  have "b \<notin> set ns" for b
  proof
    assume "b \<in> set ns"
    with Some have "edge al 0 b" by (simp add: edge_def)
    with edges have vb: "vacant s b" and ga: "grid_adjacent (cols s) 0 b" by simp_all
    from vacant_in_range[OF wf vb] one have "b = 0" by simp
    with ga show False by (simp add: grid_adjacent_def)
  qed
  then have "ns = []" by (cases ns) auto
  with Some show ?thesis by (simp add: bfs_loop.simps)
qed

text \<open>
  Claim C3. Whenever \<^verbatim>\<open>bfs\<close> returns a route on a well-formed state, the route starts
  at cell \<open>0\<close>, ends at cell \<open>size - 1\<close>, consecutive cells are neighbours on the grid,
  every cell of it is vacant, and no clear route has fewer cells.
\<close>

theorem shortest_route:
  assumes wf: "wf_state s" and run: "bfs s = Inr (Some rt)"
  shows "clear_route s rt \<and> (\<forall>p. clear_route s p \<longrightarrow> length rt \<le> length p)"
proof -
  from adjacency_list_edges[OF wf] obtain al where al: "adjacency_list s = Inr al"
    and edges: "\<And>a b. edge al a b \<longleftrightarrow> vacant s a \<and> vacant s b \<and> grid_adjacent (cols s) a b"
    by blast
  let ?goal = "size_n s - 1"
  from run al have loop: "bfs_loop al ?goal ([0] # []) [] = Inr (Some rt)"
    by (simp add: bfs_def)
  have g0: "?goal \<noteq> 0"
  proof
    assume z: "?goal = 0"
    then have "size_n s = 1" by simp
    from bfs_single_cell[OF wf this al edges] loop z show False by simp
  qed
  from bfs_loop_shortest[OF bfs_inv_initial[OF g0] loop]
  have w: "walk al rt" and l: "last rt = ?goal"
    and least: "\<And>q. walk al q \<Longrightarrow> last q = ?goal \<Longrightarrow> length rt \<le> length q"
    by simp_all
  from w have ne: "rt \<noteq> []" and h: "hd rt = 0" and sc: "successively (edge al) rt"
    by (simp_all add: walk_def)
  have two: "2 \<le> length rt"
  proof (rule ccontr)
    assume "\<not> 2 \<le> length rt"
    with ne have "length rt = 1" by (cases rt) (auto simp: not_le)
    with w have "rt = [0]" by (rule walk_single)
    with l g0 show False by simp
  qed
  have adjs: "successively (grid_adjacent (cols s)) rt"
    using sc by (rule successively_mono) (simp add: edges)
  have vac: "list_all (vacant s) rt"
    using sc two by (rule successively_endpoints) (simp add: edges)
  have route: "clear_route s rt"
    using ne h l adjs vac by (simp add: clear_route_def)
  have "length rt \<le> length p" if p: "clear_route s p" for p
  proof -
    from p have "successively (grid_adjacent (cols s)) p" and "list_all (vacant s) p"
      by (simp_all add: clear_route_def)
    then have "successively (edge al) p"
      by (rule successively_upgrade) (simp add: edges)
    with p have "walk al p" by (simp add: walk_def clear_route_def)
    moreover from p have "last p = ?goal" by (simp add: clear_route_def)
    ultimately show ?thesis by (rule least)
  qed
  with route show ?thesis by blast
qed

theorem shortest_route_witness:
  "wf_state ((Infection 2 3 0 0 0)\<lparr>infected :=
        [(0, None), (1, Some 0), (2, None), (3, None), (4, None), (5, None)]\<rparr>)
   \<and> bfs ((Infection 2 3 0 0 0)\<lparr>infected :=
        [(0, None), (1, Some 0), (2, None), (3, None), (4, None), (5, None)]\<rparr>)
      = Inr (Some [0, 3, 4, 5])
   \<and> clear_route ((Infection 2 3 0 0 0)\<lparr>infected :=
        [(0, None), (1, Some 0), (2, None), (3, None), (4, None), (5, None)]\<rparr>) [0, 3, 4, 5]
   \<and> clear_route ((Infection 2 3 0 0 0)\<lparr>infected :=
        [(0, None), (1, Some 0), (2, None), (3, None), (4, None), (5, None)]\<rparr>)
        [0, 3, 4, 5, 2, 5]
   \<and> length [0, 3, 4, 5 :: int] \<le> length [0, 3, 4, 5, 2, 5 :: int]"
proof -
  let ?s = "(Infection 2 3 0 0 0)\<lparr>infected :=
        [(0, None), (1, Some 0), (2, None), (3, None), (4, None), (5, None)]\<rparr>"
  have wf: "wf_state ?s"
    by (simp add: wf_state_def Infection_def upto.simps)
  have run: "bfs ?s = Inr (Some [0, 3, 4, 5])"
    by (simp add: run_simps bfs_loop.simps)
  have other: "clear_route ?s [0, 3, 4, 5, 2, 5]"
    by (simp add: clear_route_def grid_adjacent_def vacant_def Infection_def)
  from shortest_route[OF wf run] wf run other show ?thesis by simp
qed

subsection \<open>Seeding within the pool\<close>

text \<open>
  When the number of seeds the code computes does not exceed the number of cells that are
  not corners, and the
  samples are at most \<open>1\<close> (as those of \<^verbatim>\<open>random.random()\<close> are), seeding succeeds and
  infects exactly that many distinct cells, none of them a corner, with generation \<open>0\<close>;
  all other cells stay vacant.
\<close>

lemma infect_draw:
  "uniform (snd (infect pos a w)) = stl (uniform (snd w))"
  by (simp add: infect_def Let_def random_random_def split: prod.splits)

lemma infect_certain:
  assumes "shd (uniform (snd w)) \<le> 1" and "pos \<noteq> 0" and "pos \<noteq> size_n (fst w) - 1"
  shows "fst (infect pos (Some 1) w)
    = (fst w)\<lparr>infected := AList.update pos (Some (generation (fst w))) (infected (fst w))\<rparr>"
  using assms by (simp add: infect_def Let_def random_random_def)

lemma spawn_loop_exact:
  assumes "wf_state (fst w)" and "distinct ps"
    and "\<forall>p \<in> set ps. 0 \<le> p \<and> p < size_n (fst w) \<and> p \<noteq> 0 \<and> p \<noteq> size_n (fst w) - 1"
    and "k \<le> length ps" and "\<forall>u \<in> sset (uniform (snd w)). u \<le> 1"
  shows "\<exists>w' chosen. spawn_loop k ps w = Inr w' \<and> distinct chosen \<and> length chosen = k
    \<and> set chosen \<subseteq> set ps
    \<and> (\<forall>c. map_of (infected (fst w')) c
          = (if c \<in> set chosen then Some (Some (generation (fst w)))
             else map_of (infected (fst w)) c))"
  using assms
proof (induction k arbitrary: ps w)
  case 0
  then show ?case by simp
next
  case (Suc k)
  from Suc.prems(4) have ne: "ps \<noteq> []" by auto
  let ?p = "ps ! (shd (below (snd w)) mod length ps)"
  let ?u = "(fst w, (snd w)\<lparr>below := stl (below (snd w))\<rparr>)"
  let ?v = "infect ?p (Some 1) ?u"
  from ne have mem: "?p \<in> set ps" by simp
  with Suc.prems(3) have rng: "0 \<le> ?p" "?p < size_n (fst w)"
    and nc: "?p \<noteq> 0" "?p \<noteq> size_n (fst w) - 1" by auto
  have "shd (uniform (snd w)) \<le> 1"
    using Suc.prems(5) by (simp add: shd_sset)
  then have v: "fst ?v
      = (fst w)\<lparr>infected := AList.update ?p (Some (generation (fst w))) (infected (fst w))\<rparr>"
    using nc infect_certain[of ?u ?p] by simp
  have step: "spawn_loop (Suc k) ps w = spawn_loop k (remove1 ?p ps) ?v"
    using ne by (simp add: random_choice_def)
  have "\<exists>w' chosen. spawn_loop k (remove1 ?p ps) ?v = Inr w' \<and> distinct chosen
      \<and> length chosen = k \<and> set chosen \<subseteq> set (remove1 ?p ps)
      \<and> (\<forall>c. map_of (infected (fst w')) c
            = (if c \<in> set chosen then Some (Some (generation (fst ?v)))
               else map_of (infected (fst ?v)) c))"
  proof (rule Suc.IH)
    show "wf_state (fst ?v)"
      using Suc.prems(1) rng by (intro wf_state_infect) simp_all
    show "distinct (remove1 ?p ps)" using Suc.prems(2) by simp
    show "\<forall>p \<in> set (remove1 ?p ps).
        0 \<le> p \<and> p < size_n (fst ?v) \<and> p \<noteq> 0 \<and> p \<noteq> size_n (fst ?v) - 1"
      using Suc.prems(3) by (simp add: v) (meson notin_set_remove1)
    show "k \<le> length (remove1 ?p ps)"
      using Suc.prems(4) mem by (simp add: length_remove1)
    show "\<forall>u \<in> sset (uniform (snd ?v)). u \<le> 1"
      using Suc.prems(5) by (auto simp: infect_draw dest: stl_sset)
  qed
  then obtain w' chosen where run: "spawn_loop k (remove1 ?p ps) ?v = Inr w'"
    and d: "distinct chosen" and len: "length chosen = k"
    and sub: "set chosen \<subseteq> set (remove1 ?p ps)"
    and look: "\<And>c. map_of (infected (fst w')) c
            = (if c \<in> set chosen then Some (Some (generation (fst ?v)))
               else map_of (infected (fst ?v)) c)"
    by blast
  from sub Suc.prems(2) have fresh: "?p \<notin> set chosen" by auto
  from sub have sub': "set chosen \<subseteq> set ps" by (meson notin_set_remove1 subsetI subsetD)
  show ?case
  proof (intro exI[of _ w'] exI[of _ "?p # chosen"] conjI allI)
    show "spawn_loop (Suc k) ps w = Inr w'" using step run by simp
    show "distinct (?p # chosen)" using d fresh by simp
    show "length (?p # chosen) = Suc k" using len by simp
    show "set (?p # chosen) \<subseteq> set ps" using sub' mem by simp
    fix c
    show "map_of (infected (fst w')) c
        = (if c \<in> set (?p # chosen) then Some (Some (generation (fst w)))
           else map_of (infected (fst w)) c)"
      using look[of c] by (simp add: v update_conv')
  qed
qed

lemma spawn_seeds_exactly:
  assumes "0 < r" and "0 < c"
    and "k \<le> length (filter (\<lambda>k. k \<notin> {0, r * c - 1}) [0 .. r * c - 1])"
    and "\<forall>u \<in> sset (uniform rnd). u \<le> 1"
    and cnt: "seed_count (r * c) sd = Inr k"
  shows "\<exists>w chosen. spawn (Infection r c sd rk its, rnd) = Inr w \<and> distinct chosen
    \<and> length chosen = k
    \<and> (\<forall>p \<in> set chosen. 0 < p \<and> p < r * c - 1)
    \<and> (\<forall>p. map_of (infected (fst w)) p
          = (if p \<in> set chosen then Some (Some 0)
             else if 0 \<le> p \<and> p < r * c then Some None else None))"
proof -
  let ?s = "Infection r c sd rk its"
  let ?ps = "filter (\<lambda>k. k \<notin> {0, r * c - 1}) [0 .. r * c - 1]"
  have wf: "wf_state ?s" using assms(1,2) by (rule wf_state_Infection)
  have sz: "size_n ?s = r * c" and gen: "generation ?s = 0" and sd: "seed ?s = sd"
    by (simp_all add: Infection_def)
  have keys: "map fst (infected ?s) = [0 .. r * c - 1]"
    using wf by (simp add: wf_state_def sz)
  have sp: "spawn (?s, rnd) = spawn_loop (k) ?ps (?s, rnd)"
    by (simp add: spawn_def Let_def sz sd keys cnt)
  have "\<exists>w' chosen. spawn_loop (k) ?ps (?s, rnd) = Inr w'
      \<and> distinct chosen \<and> length chosen = k
      \<and> set chosen \<subseteq> set ?ps
      \<and> (\<forall>c. map_of (infected (fst w')) c
            = (if c \<in> set chosen then Some (Some (generation (fst (?s, rnd))))
               else map_of (infected (fst (?s, rnd))) c))"
  proof (rule spawn_loop_exact)
    show "wf_state (fst (?s, rnd))" using wf by simp
    show "distinct ?ps" by simp
    show "\<forall>p \<in> set ?ps. 0 \<le> p \<and> p < size_n (fst (?s, rnd)) \<and> p \<noteq> 0
        \<and> p \<noteq> size_n (fst (?s, rnd)) - 1"
      by (auto simp: sz)
    show "k \<le> length ?ps" by (rule assms(3))
    show "\<forall>u \<in> sset (uniform (snd (?s, rnd))). u \<le> 1" using assms(4) by simp
  qed
  then obtain w chosen where run: "spawn_loop (k) ?ps (?s, rnd) = Inr w"
    and d: "distinct chosen" and len: "length chosen = k"
    and sub: "set chosen \<subseteq> set ?ps"
    and look: "\<And>p. map_of (infected (fst w)) p
            = (if p \<in> set chosen then Some (Some 0) else map_of (infected ?s) p)"
    by (auto simp: gen)
  have init: "map_of (infected ?s) p = (if 0 \<le> p \<and> p < r * c then Some None else None)" for p
  proof (cases "0 \<le> p \<and> p < r * c")
    case True
    then show ?thesis using vacant_Infection[of p r c sd rk its] by (simp add: vacant_def)
  next
    case False
    then have "p \<notin> fst ` set (infected ?s)"
      using wf_state_keys[OF wf, of p] by (simp add: sz)
    with False show ?thesis by (auto simp: map_of_eq_None_iff)
  qed
  show ?thesis
  proof (intro exI[of _ w] exI[of _ chosen] conjI ballI allI)
    show "spawn (?s, rnd) = Inr w" using sp run by simp
    show "distinct chosen" by (rule d)
    show "length chosen = k" by (rule len)
    fix p assume "p \<in> set chosen"
    with sub have "p \<in> set ?ps" by blast
    then show "0 < p" and "p < r * c - 1" by auto
  next
    fix p
    show "map_of (infected (fst w)) p
        = (if p \<in> set chosen then Some (Some 0)
           else if 0 \<le> p \<and> p < r * c then Some None else None)"
      using look[of p] init[of p] by simp
  qed
qed

subsection \<open>Infection is not cleared, and the search raises nothing\<close>

text \<open>
  A round never returns an infected cell to \<^verbatim>\<open>None\<close> (it may change its generation),
  and on every reachable state \<^verbatim>\<open>bfs\<close> ends without an exception.
\<close>

lemma infected_stays_infected:
  assumes "reachable w" and "propagate_round w = Inr w'"
    and "map_of (infected (fst w)) n = Some (Some g)"
  shows "\<exists>g'. map_of (infected (fst w')) n = Some (Some g')"
proof (cases "map_of (infected (fst w')) n = map_of (infected (fst w)) n")
  case True
  with assms(3) show ?thesis by simp
next
  case False
  from assms(1) have "wf_state (fst w)" using reachable_sound by blast
  then have "round_inv (fst w) w'" using assms(2) by (rule propagate_round_inv)
  with False have "map_of (infected (fst w')) n = Some (Some (generation (fst w) + 1))"
    unfolding round_inv_def by blast
  then show ?thesis ..
qed

lemma bfs_loop_total:
  assumes "\<forall>a ns. map_of al a = Some ns \<longrightarrow> (\<forall>b \<in> set ns. map_of al b \<noteq> None)"
    and "\<forall>p \<in> set queue. p \<noteq> [] \<and> map_of al (last p) \<noteq> None"
  shows "\<exists>r. bfs_loop al goal queue visited = Inr r"
  using assms
proof (induction al goal queue visited rule: bfs_loop.induct)
  case (1 alist goal visited)
  then show ?case by (simp add: bfs_loop.simps)
next
  case (2 alist goal path queue visited)
  note closed = "2.prems"(1)
  from "2.prems"(2) have ne: "path \<noteq> []"
    and rest: "\<forall>p \<in> set queue. p \<noteq> [] \<and> map_of alist (last p) \<noteq> None"
    by simp_all
  from "2.prems"(2) obtain ns where key: "map_of alist (last path) = Some ns" by auto
  show ?case
  proof (cases "last path \<in> set visited")
    case True
    with "2.IH"(1)[OF ne refl True closed rest] ne show ?thesis
      by (simp add: bfs_loop.simps(2) Let_def)
  next
    case False
    show ?thesis
    proof (cases "bfs_extend path goal ns queue")
      case (Inl new_path)
      with ne False key show ?thesis
        by (simp add: bfs_loop.simps(2) Let_def)
    next
      case (Inr queue')
      from bfs_extend_Inr[OF Inr] have q': "queue' = queue @ map (\<lambda>n. path @ [n]) ns" by simp
      from closed key have "\<forall>b \<in> set ns. map_of alist b \<noteq> None" by blast
      with rest have "\<forall>p \<in> set queue'. p \<noteq> [] \<and> map_of alist (last p) \<noteq> None"
        by (auto simp: q')
      from "2.IH"(2)[OF ne refl False key Inr closed this] ne False key Inr show ?thesis
        by (simp add: bfs_loop.simps(2) Let_def)
    qed
  qed
qed

lemma bfs_total:
  assumes wf: "wf_state s" and v0: "vacant s 0"
  shows "\<exists>r. bfs s = Inr r"
proof -
  from adjacency_list_edges[OF wf] obtain al where al: "adjacency_list s = Inr al"
    and keys: "\<And>a. map_of al a \<noteq> None \<longleftrightarrow> vacant s a"
    and edges: "\<And>a b. edge al a b \<longleftrightarrow> vacant s a \<and> vacant s b \<and> grid_adjacent (cols s) a b"
    by blast
  have "\<exists>r. bfs_loop al (size_n s - 1) ([0] # []) [] = Inr r"
  proof (rule bfs_loop_total)
    show "\<forall>a ns. map_of al a = Some ns \<longrightarrow> (\<forall>b \<in> set ns. map_of al b \<noteq> None)"
    proof (intro allI impI ballI)
      fix a ns b assume "map_of al a = Some ns" and "b \<in> set ns"
      then have "edge al a b" by (simp add: edge_def)
      with edges keys show "map_of al b \<noteq> None" by simp
    qed
  next
    show "\<forall>p \<in> set ([0] # []). p \<noteq> [] \<and> map_of al (last p) \<noteq> None"
      using keys v0 by simp
  qed
  with al show ?thesis by (simp add: bfs_def)
qed

lemma reachable_bfs_total: "reachable w \<Longrightarrow> \<exists>r. bfs (fst w) = Inr r"
  using reachable_sound[of w] by (simp add: bfs_total)

end
